theory Spec2Isabelle
  imports Main "HOL-Library.Sublist"
begin

section \<open>JavaScript strings and regular expressions\<close>

text \<open>
  The source is \<^verbatim>\<open>ActionBlockStreamer.ts\<close>. Its strings are modelled as \<^typ>\<open>string\<close>
  (code units below 256). \<^verbatim>\<open>\s\<close> and \<^verbatim>\<open>String.prototype.trim\<close> use the same
  set of white space; within this range it is TAB, LF, VT, FF, CR, SPACE and NBSP.
\<close>

definition is_space :: "char \<Rightarrow> bool" where
  "is_space c = (c \<in> set [CHR 0x09, CHR 0x0A, CHR 0x0B, CHR 0x0C, CHR 0x0D, CHR 0x20, CHR 0xA0])"

text \<open>\<^verbatim>\<open>s.trim()\<close>\<close>

definition trim :: "string \<Rightarrow> string" where
  "trim s = rev (dropWhile is_space (rev (dropWhile is_space s)))"

text \<open>\<^verbatim>\<open>s.indexOf(t)\<close>: the first index at which \<open>t\<close> occurs, or \<open>-1\<close>.\<close>

fun index_of :: "string \<Rightarrow> string \<Rightarrow> nat option" where
  "index_of t [] = (if t = [] then Some 0 else None)"
| "index_of t (x # xs) =
     (if prefix t (x # xs) then Some 0 else map_option Suc (index_of t xs))"

definition indexOf :: "string \<Rightarrow> string \<Rightarrow> int" where
  "indexOf s t = (case index_of t s of None \<Rightarrow> -1 | Some i \<Rightarrow> int i)"

text \<open>\<^verbatim>\<open>s.substring(n)\<close>: a negative start counts as 0, one past the end as the length.\<close>

definition substring :: "string \<Rightarrow> int \<Rightarrow> string" where
  "substring s n = drop (nat n) s"

text \<open>
  The fragment of the regular expression syntax that the source uses: literals, the
  greedy and the lazy star of a character class (\<^verbatim>\<open>\s*\<close>, \<^verbatim>\<open>[\s\S]*?\<close>), the greedy
  option \<^verbatim>\<open>(?:r)?\<close>, sequencing, the capture group number 1 and the anchor \<^verbatim>\<open>^\<close>.
\<close>

datatype cclass = Space | AnyChar

fun in_class :: "cclass \<Rightarrow> char \<Rightarrow> bool" where
  "in_class Space c = is_space c"
| "in_class AnyChar c = True"

datatype rx =
    Lit string
  | Star cclass
  | LazyStar cclass
  | Opt rx
  | Seq rx rx
  | Group rx
  | Bol

text \<open>
  A matcher state is the index reached in the input, the input from there on, and the
  text captured by group 1. As in the language definition, a pattern is a backtracking
  matcher that takes a continuation: it tries its alternatives in priority order and
  the first one on which the continuation succeeds wins.
\<close>

type_synonym mstate = "nat \<times> string \<times> string option"

fun star_greedy :: "cclass \<Rightarrow> (mstate \<Rightarrow> 'r option) \<Rightarrow> nat \<Rightarrow> string option \<Rightarrow> string \<Rightarrow> 'r option" where
  "star_greedy c k p g [] = k (p, [], g)"
| "star_greedy c k p g (x # xs) =
     (if in_class c x
      then (case star_greedy c k (Suc p) g xs of
              Some r \<Rightarrow> Some r
            | None \<Rightarrow> k (p, x # xs, g))
      else k (p, x # xs, g))"

fun star_lazy :: "cclass \<Rightarrow> (mstate \<Rightarrow> 'r option) \<Rightarrow> nat \<Rightarrow> string option \<Rightarrow> string \<Rightarrow> 'r option" where
  "star_lazy c k p g [] = k (p, [], g)"
| "star_lazy c k p g (x # xs) =
     (case k (p, x # xs, g) of
        Some r \<Rightarrow> Some r
      | None \<Rightarrow> (if in_class c x then star_lazy c k (Suc p) g xs else None))"

primrec m :: "rx \<Rightarrow> (mstate \<Rightarrow> 'r option) \<Rightarrow> mstate \<Rightarrow> 'r option" where
  "m (Lit l) = (\<lambda>k (p, s, g).
     if prefix l s then k (p + length l, drop (length l) s, g) else None)"
| "m (Star c) = (\<lambda>k (p, s, g). star_greedy c k p g s)"
| "m (LazyStar c) = (\<lambda>k (p, s, g). star_lazy c k p g s)"
| "m (Opt a) = (\<lambda>k st. case m a k st of Some r \<Rightarrow> Some r | None \<Rightarrow> k st)"
| "m (Seq a b) = (\<lambda>k st. m a (m b k) st)"
| "m (Group a) = (\<lambda>k (p, s, g). m a (\<lambda>(e, s', g'). k (e, s', Some (take (e - p) s))) (p, s, g))"
| "m Bol = (\<lambda>k (p, s, g). if p = 0 then k (p, s, g) else None)"

text \<open>
  The leftmost match at or after index \<open>i\<close>, where \<open>s\<close> is the input from \<open>i\<close> on:
  the start index and the state at the end of the match.
\<close>

fun search_from :: "rx \<Rightarrow> nat \<Rightarrow> string \<Rightarrow> (nat \<times> mstate) option" where
  "search_from re i [] = map_option (Pair i) (m re Some (i, [], None))"
| "search_from re i (x # xs) =
     (case m re Some (i, x # xs, None) of
        Some st \<Rightarrow> Some (i, st)
      | None \<Rightarrow> search_from re (Suc i) xs)"

text \<open>\<^verbatim>\<open>s.match(re)\<close> for a pattern without the \<^verbatim>\<open>g\<close> flag: \<^verbatim>\<open>index\<close>, \<^verbatim>\<open>[0]\<close> and \<^verbatim>\<open>[1]\<close>.\<close>

record match_result =
  index :: nat
  whole :: string
  group1 :: "string option"

definition js_match :: "rx \<Rightarrow> string \<Rightarrow> match_result option" where
  "js_match re s =
     (case search_from re 0 s of
        None \<Rightarrow> None
      | Some (i, (e, s', g)) \<Rightarrow>
          Some \<lparr>index = i, whole = take (e - i) (drop i s), group1 = g\<rparr>)"

subsection \<open>What a successful match has consumed\<close>

text \<open>
  The words a pattern can consume. A matcher that succeeds has called its continuation
  after consuming one of them; the global replacement below terminates for that reason.
\<close>

primrec lang :: "rx \<Rightarrow> string set" where
  "lang (Lit l) = {l}"
| "lang (Star c) = {w. \<forall>x\<in>set w. in_class c x}"
| "lang (LazyStar c) = {w. \<forall>x\<in>set w. in_class c x}"
| "lang (Opt a) = insert [] (lang a)"
| "lang (Seq a b) = {u @ v | u v. u \<in> lang a \<and> v \<in> lang b}"
| "lang (Group a) = lang a"
| "lang Bol = {[]}"

definition reaches :: "(mstate \<Rightarrow> 'r option) \<Rightarrow> rx \<Rightarrow> mstate \<Rightarrow> 'r \<Rightarrow> bool" where
  "reaches k re st r \<longleftrightarrow>
     (case st of (p, s, g) \<Rightarrow>
        \<exists>w t g'. s = w @ t \<and> w \<in> lang re \<and> k (p + length w, t, g') = Some r)"

lemma star_greedy_sound:
  "star_greedy c k p g s = Some r \<Longrightarrow>
   \<exists>w t. s = w @ t \<and> (\<forall>x\<in>set w. in_class c x) \<and> k (p + length w, t, g) = Some r"
proof (induction s arbitrary: p)
  case Nil
  then show ?case by simp
next
  case (Cons x xs)
  show ?case
  proof (cases "in_class c x \<and> star_greedy c k (Suc p) g xs \<noteq> None")
    case True
    then have "star_greedy c k (Suc p) g xs = Some r" using Cons.prems by auto
    from Cons.IH[OF this] obtain w t where
      "xs = w @ t" "\<forall>x\<in>set w. in_class c x" "k (Suc p + length w, t, g) = Some r" by blast
    then have "x # xs = (x # w) @ t \<and> (\<forall>y\<in>set (x # w). in_class c y)
        \<and> k (p + length (x # w), t, g) = Some r" using True by simp
    then show ?thesis by blast
  next
    case False
    then have "k (p, x # xs, g) = Some r" using Cons.prems by (auto split: if_splits option.splits)
    then have "x # xs = [] @ (x # xs) \<and> (\<forall>y\<in>set []. in_class c y)
        \<and> k (p + length ([]::string), x # xs, g) = Some r" by simp
    then show ?thesis by blast
  qed
qed

lemma star_lazy_sound:
  "star_lazy c k p g s = Some r \<Longrightarrow>
   \<exists>w t. s = w @ t \<and> (\<forall>x\<in>set w. in_class c x) \<and> k (p + length w, t, g) = Some r"
proof (induction s arbitrary: p)
  case Nil
  then show ?case by simp
next
  case (Cons x xs)
  show ?case
  proof (cases "k (p, x # xs, g)")
    case (Some r')
    then have "k (p, x # xs, g) = Some r" using Cons.prems by simp
    then have "x # xs = [] @ (x # xs) \<and> (\<forall>y\<in>set []. in_class c y)
        \<and> k (p + length ([]::string), x # xs, g) = Some r" by simp
    then show ?thesis by blast
  next
    case None
    then have *: "in_class c x" "star_lazy c k (Suc p) g xs = Some r"
      using Cons.prems by (auto split: if_splits)
    from Cons.IH[OF *(2)] obtain w t where
      "xs = w @ t" "\<forall>x\<in>set w. in_class c x" "k (Suc p + length w, t, g) = Some r" by blast
    then have "x # xs = (x # w) @ t \<and> (\<forall>y\<in>set (x # w). in_class c y)
        \<and> k (p + length (x # w), t, g) = Some r" using * by simp
    then show ?thesis by blast
  qed
qed

lemma m_sound: "m re k st = Some r \<Longrightarrow> reaches k re st r"
proof (induction re arbitrary: k st r)
  case (Lit l)
  obtain p s g where st: "st = (p, s, g)" by (cases st)
  from Lit st have "prefix l s" "k (p + length l, drop (length l) s, g) = Some r"
    by (auto split: if_splits)
  moreover from this have "s = l @ drop (length l) s" by (auto simp: prefix_def)
  ultimately show ?case unfolding reaches_def st by auto
next
  case (Star c)
  obtain p s g where st: "st = (p, s, g)" by (cases st)
  from Star st have "star_greedy c k p g s = Some r" by simp
  from star_greedy_sound[OF this] show ?case unfolding reaches_def st by auto
next
  case (LazyStar c)
  obtain p s g where st: "st = (p, s, g)" by (cases st)
  from LazyStar st have "star_lazy c k p g s = Some r" by simp
  from star_lazy_sound[OF this] show ?case unfolding reaches_def st by auto
next
  case (Opt a)
  obtain p s g where st: "st = (p, s, g)" by (cases st)
  show ?case
  proof (cases "m a k st")
    case None
    with Opt.prems have "k (p + length ([]::string), s, g) = Some r" unfolding st by simp
    then have "s = [] @ s \<and> [] \<in> lang (Opt a) \<and> k (p + length ([]::string), s, g) = Some r"
      by simp
    then show ?thesis unfolding reaches_def st by blast
  next
    case (Some r')
    with Opt.prems have "m a k st = Some r" by simp
    from Opt.IH[OF this] show ?thesis unfolding reaches_def st by auto
  qed
next
  case (Seq a b)
  obtain p s g where st: "st = (p, s, g)" by (cases st)
  from Seq.prems have "m a (m b k) st = Some r" by simp
  from Seq.IH(1)[OF this] obtain u t g' where
    u: "s = u @ t" "u \<in> lang a" "m b k (p + length u, t, g') = Some r"
    unfolding reaches_def st by auto
  from Seq.IH(2)[OF u(3)] obtain v t' g'' where
    v: "t = v @ t'" "v \<in> lang b" "k (p + length u + length v, t', g'') = Some r"
    unfolding reaches_def by auto
  have "s = (u @ v) @ t'" "u @ v \<in> lang (Seq a b)" "k (p + length (u @ v), t', g'') = Some r"
    using u v by (auto simp: add.assoc)
  then show ?case unfolding reaches_def st by blast
next
  case (Group a)
  obtain p s g where st: "st = (p, s, g)" by (cases st)
  from Group.prems st
  have "m a (\<lambda>(e, s', g'). k (e, s', Some (take (e - p) s))) (p, s, g) = Some r" by simp
  from Group.IH[OF this] show ?case unfolding reaches_def st by auto
next
  case Bol
  obtain p s g where st: "st = (p, s, g)" by (cases st)
  from Bol st have "k (p, s, g) = Some r" by (auto split: if_splits)
  then have "s = [] @ s \<and> [] \<in> lang Bol \<and> k (p + length ([]::string), s, g) = Some r"
    by simp
  then show ?case unfolding reaches_def st by blast
qed

lemma search_from_sound:
  "search_from re i s = Some (j, (e, s', g)) \<Longrightarrow>
   \<exists>a w. s = a @ w @ s' \<and> j = i + length a \<and> e = j + length w \<and> w \<in> lang re"
proof (induction s arbitrary: i)
  case Nil
  then have "m re Some (i, [], None) = Some (e, s', g)" "j = i" by auto
  from m_sound[OF this(1)] \<open>j = i\<close> show ?case unfolding reaches_def by auto
next
  case (Cons x xs)
  show ?case
  proof (cases "m re Some (i, x # xs, None)")
    case None
    with Cons.prems have "search_from re (Suc i) xs = Some (j, (e, s', g))" by simp
    from Cons.IH[OF this] obtain a w where
      "xs = a @ w @ s'" "j = Suc i + length a" "e = j + length w" "w \<in> lang re" by blast
    then have "x # xs = (x # a) @ w @ s' \<and> j = i + length (x # a) \<and> e = j + length w
        \<and> w \<in> lang re" by simp
    then show ?thesis by blast
  next
    case (Some st)
    with Cons.prems have "m re Some (i, x # xs, None) = Some (e, s', g)" "j = i" by auto
    from m_sound[OF this(1)] obtain w where
      "x # xs = w @ s'" "w \<in> lang re" "e = i + length w" unfolding reaches_def by auto
    then have "x # xs = [] @ w @ s' \<and> j = i + length ([]::string) \<and> e = j + length w
        \<and> w \<in> lang re" using \<open>j = i\<close> by simp
    then show ?thesis by blast
  qed
qed

lemma search_from_progress:
  assumes "search_from re i s = Some (j, (e, s', g))" and "\<not> e \<le> j"
  shows "length s' < length s"
proof -
  from search_from_sound[OF assms(1)] assms(2)
  obtain a w where "s = a @ w @ s'" "w \<noteq> []" by auto
  then show ?thesis by auto
qed

lemma drop_Cons_shorter: "drop n s = x # xs \<Longrightarrow> length xs < length s"
proof -
  assume "drop n s = x # xs"
  then have "length (x # xs) \<le> length s" by (metis length_drop diff_le_self)
  then show ?thesis by simp
qed

subsection \<open>Global replacement by the first group\<close>

text \<open>
  \<^verbatim>\<open>s.replace(re, "$1")\<close> for a pattern with the \<^verbatim>\<open>g\<close> flag, from index \<open>i\<close> on
  (\<open>s\<close> is the input from \<open>i\<close>): every match, found from left to right from the end of
  the one before, is replaced by the text of group 1 (empty when the group did not take
  part). After an empty match the search resumes one character further.
\<close>

function replace_from :: "rx \<Rightarrow> nat \<Rightarrow> string \<Rightarrow> string" where
  "replace_from re i s =
     (case search_from re i s of
        None \<Rightarrow> s
      | Some (j, (e, s', g)) \<Rightarrow>
          take (j - i) s @ (case g of Some t \<Rightarrow> t | None \<Rightarrow> []) @
          (if e \<le> j
           then (case drop (j - i) s of [] \<Rightarrow> [] | x # xs \<Rightarrow> x # replace_from re (Suc j) xs)
           else replace_from re e s'))"
  by pat_completeness auto
termination
  by (relation "measure (\<lambda>(re, i, s). length s)")
     (auto dest: search_from_progress drop_Cons_shorter)

declare replace_from.simps [simp del]

definition replace_g1 :: "rx \<Rightarrow> string \<Rightarrow> string" where
  "replace_g1 re s = replace_from re 0 s"

section \<open>ActionBlockStreamer\<close>

subsection \<open>The patterns of the source\<close>

definition open_tag :: string where
  "open_tag = ''<writeToFile>''"

definition close_tag :: string where
  "close_tag = ''</writeToFile>''"

definition fence :: string where
  "fence = ''```''"

text \<open>\<^verbatim>\<open>/```(?:xml)?\s*([\s\S]*?<writeToFile>[\s\S]*?<\/writeToFile>[\s\S]*?)\s*```/g\<close>\<close>

definition fence_re :: rx where
  "fence_re =
     Seq (Lit fence) (Seq (Opt (Lit ''xml'')) (Seq (Star Space)
       (Seq (Group (Seq (LazyStar AnyChar) (Seq (Lit open_tag)
               (Seq (LazyStar AnyChar) (Seq (Lit close_tag) (LazyStar AnyChar))))))
         (Seq (Star Space) (Lit fence)))))"

text \<open>\<^verbatim>\<open>/<writeToFile>[\s\S]*?<\/writeToFile>/\<close>\<close>

definition block_re :: rx where
  "block_re = Seq (Lit open_tag) (Seq (LazyStar AnyChar) (Lit close_tag))"

text \<open>\<^verbatim>\<open>/^\s*```/\<close>\<close>

definition trailing_fence_re :: rx where
  "trailing_fence_re = Seq Bol (Seq (Star Space) (Lit fence))"

text \<open>\<^verbatim>\<open>/<path>([\s\S]*?)<\/path>/\<close> and \<^verbatim>\<open>/<content>([\s\S]*?)<\/content>/\<close>\<close>

definition path_re :: rx where
  "path_re = Seq (Lit ''<path>'') (Seq (Group (LazyStar AnyChar)) (Lit ''</path>''))"

definition content_re :: rx where
  "content_re = Seq (Lit ''<content>'') (Seq (Group (LazyStar AnyChar)) (Lit ''</content>''))"

subsection \<open>stripCodeFences and findCompleteBlock\<close>

definition stripCodeFences :: "string \<Rightarrow> string" where
  "stripCodeFences str = replace_g1 fence_re str"

text \<open>The result is \<^verbatim>\<open>null\<close> (\<open>None\<close>) or the pair of \<^verbatim>\<open>block\<close> and \<^verbatim>\<open>endIdx\<close>.\<close>

definition findCompleteBlock :: "string \<Rightarrow> (string \<times> int) option" where
  "findCompleteBlock str =
     (let cleaned = stripCodeFences str in
      case js_match block_re cleaned of
        None \<Rightarrow> None
      | Some mt \<Rightarrow>
          let writeToFileEnd = indexOf str close_tag + int (length close_tag);
              afterBlock = substring str writeToFileEnd;
              fenceMatch = js_match trailing_fence_re afterBlock;
              actualEndIdx = writeToFileEnd +
                (case fenceMatch of Some fm \<Rightarrow> int (length (whole fm)) | None \<Rightarrow> 0)
          in Some (whole mt, actualEndIdx))"

subsection \<open>Chunks, the tool and what a call of processChunk does\<close>

text \<open>
  A chunk is an object with a \<^verbatim>\<open>content\<close> field and any other fields (the record's
  extension). The content is absent (\<^verbatim>\<open>null\<close> or \<^verbatim>\<open>undefined\<close>), a string, or an
  array of items; an item is an object with a \<^verbatim>\<open>type\<close> and possibly a \<^verbatim>\<open>text\<close>, a
  string.
\<close>

datatype item = Item (item_type: string) (item_text: "string option")

datatype payload = Absent | Text string | Items "item list"

record chunk =
  content :: payload

text \<open>
  What the tool manager or the formatter throws: the \<^verbatim>\<open>message\<close> property of the thrown
  value when it has one, and the text of the value itself.
\<close>

datatype thrown = Thrown (message: "string option") (as_text: string)

text \<open>\<^verbatim>\<open>${err?.message || err}\<close>: an absent or empty message is falsy.\<close>

definition error_text :: "thrown \<Rightarrow> string" where
  "error_text err =
     (case message err of
        Some msg \<Rightarrow> if msg = [] then as_text err else msg
      | None \<Rightarrow> as_text err)"

text \<open>
  The observable events of a call, in order: \<open>Yield\<close> is the \<^verbatim>\<open>yield chunk\<close> of line 82,
  \<open>CallTool\<close> the call \<^verbatim>\<open>toolManager.callTool(writeToFileTool, {path, content, confirmation})\<close>
  and \<open>YieldStatus\<close> the \<^verbatim>\<open>yield\<close> of line 123 or 126 that follows it. The consumer sees
  the chunks of \<open>Yield\<close> and \<open>YieldStatus\<close>, in this order.
  The tool is a parameter: it acts on a world \<open>'w\<close> and returns a result or throws.
  \<^verbatim>\<open>ToolResultFormatter.format\<close> is a parameter as well; it runs inside the same
  \<^verbatim>\<open>try\<close>, so what it throws is caught there. The logger is left out.
\<close>

datatype 'a event =
    Yield "'a chunk_scheme"
  | CallTool (call_path: string) (call_content: string) (call_confirmation: bool)
  | YieldStatus "'a chunk_scheme"

fun yielded :: "'a event list \<Rightarrow> 'a chunk_scheme list" where
  "yielded [] = []"
| "yielded (Yield c # evs) = c # yielded evs"
| "yielded (YieldStatus c # evs) = c # yielded evs"
| "yielded (CallTool fp cnt cf # evs) = yielded evs"

type_synonym ('w, 'res) tool = "string \<Rightarrow> string \<Rightarrow> bool \<Rightarrow> 'w \<Rightarrow> (thrown + 'res) \<times> 'w"

type_synonym 'res formatter = "'res \<Rightarrow> thrown + string"

text \<open>
  Lines 91 to 94: the two fields of a block, \<^verbatim>\<open>undefined\<close> as \<open>None\<close>. Group 1 takes part
  in every match of the two patterns, so \<^verbatim>\<open>pathMatch[1]\<close> is a string whenever there is a
  match.
\<close>

definition extract_field :: "rx \<Rightarrow> string \<Rightarrow> string option" where
  "extract_field re block =
     (case js_match re block of
        None \<Rightarrow> None
      | Some mt \<Rightarrow> map_option trim (group1 mt))"

definition filePath :: "string \<Rightarrow> string option" where
  "filePath block = extract_field path_re block"

definition fileContent :: "string \<Rightarrow> string option" where
  "fileContent block = extract_field content_re block"

text \<open>
  The two template strings of lines 123 and 126, \<^verbatim>\<open>`\n${formattedResult}\n`\<close> and
  \<^verbatim>\<open>`\nError: ${err?.message || err}\n`\<close>.
\<close>

definition result_status :: "string \<Rightarrow> string" where
  "result_status formattedResult = [CHR 0x0A] @ formattedResult @ [CHR 0x0A]"

definition error_status :: "thrown \<Rightarrow> string" where
  "error_status err = [CHR 0x0A] @ ''Error: '' @ error_text err @ [CHR 0x0A]"

text \<open>
  Lines 114 to 127: the call of the tool, the formatting of its result, and the status
  chunk; what either of the two throws is caught by the one \<^verbatim>\<open>catch\<close>. The result is
  the events and the new world.
\<close>

definition dispatch ::
  "('w, 'res) tool \<Rightarrow> 'res formatter \<Rightarrow> 'a chunk_scheme \<Rightarrow> string \<Rightarrow> string option \<Rightarrow> 'w
     \<Rightarrow> 'a event list \<times> 'w" where
  "dispatch callTool format chunk fp fc w =
     (let cnt = (case fc of Some c \<Rightarrow> c | None \<Rightarrow> []);
          (res, w') = callTool fp cnt False w;
          formattedResult = (case res of Inl err \<Rightarrow> Inl err | Inr result \<Rightarrow> format result);
          status =
            (case formattedResult of
               Inr text \<Rightarrow> result_status text
             | Inl err \<Rightarrow> error_status err)
      in ([CallTool fp cnt False, YieldStatus (chunk\<lparr>content := Text status\<rparr>)], w'))"

lemma findCompleteBlock_Nil: "findCompleteBlock [] = None"
  by (simp add: findCompleteBlock_def stripCodeFences_def replace_g1_def fence_re_def
      fence_def js_match_def block_re_def open_tag_def replace_from.simps)

lemma findCompleteBlock_shorter:
  assumes "findCompleteBlock buf = Some (block, endIdx)"
  shows "length (substring buf endIdx) < length buf"
proof -
  have "buf \<noteq> []" using assms findCompleteBlock_Nil by auto
  moreover have "0 < endIdx"
    using assms
    by (auto simp: findCompleteBlock_def Let_def indexOf_def close_tag_def
        split: option.splits)
  ultimately show ?thesis by (simp add: substring_def)
qed

text \<open>
  Lines 85 to 134, the loop over the complete blocks of the buffer: the events, the
  buffer and the world at the end. The generator is run to its end: the consumer asks
  for every chunk.
\<close>

function processLoop ::
  "('w, 'res) tool \<Rightarrow> 'res formatter \<Rightarrow> 'a chunk_scheme \<Rightarrow> string \<Rightarrow> 'w
     \<Rightarrow> 'a event list \<times> string \<times> 'w" where
  "processLoop callTool format chunk buffer w =
     (case findCompleteBlock buffer of
        None \<Rightarrow> ([], buffer, w)
      | Some (block, endIdx) \<Rightarrow>
          (case filePath block of
             None \<Rightarrow> processLoop callTool format chunk (substring buffer endIdx) w
           | Some fp \<Rightarrow>
               if fp = [] then processLoop callTool format chunk (substring buffer endIdx) w
               else
                 (case dispatch callTool format chunk fp (fileContent block) w of
                    (evs, w') \<Rightarrow>
                      (case processLoop callTool format chunk (substring buffer endIdx) w' of
                         (evs', buffer', w'') \<Rightarrow> (evs @ evs', buffer', w'')))))"
  by pat_completeness auto
termination
  by (relation "measure (\<lambda>(callTool, format, chunk, buffer, w). length buffer)")
     (auto dest: findCompleteBlock_shorter)

declare processLoop.simps [simp del]

text \<open>Lines 61 to 74: the text of a chunk.\<close>

definition chunkContent :: "'a chunk_scheme \<Rightarrow> string" where
  "chunkContent chunk =
     (case content chunk of
        Items its \<Rightarrow>
          concat (map (\<lambda>it. case item_text it of
                               Some t \<Rightarrow> if item_type it = ''text'' then t else []
                             | None \<Rightarrow> []) its)
      | Text t \<Rightarrow> t
      | Absent \<Rightarrow> [])"

definition processChunk ::
  "('w, 'res) tool \<Rightarrow> 'res formatter \<Rightarrow> 'a chunk_scheme \<Rightarrow> string \<Rightarrow> 'w
     \<Rightarrow> 'a event list \<times> string \<times> 'w" where
  "processChunk callTool format chunk buffer w =
     (let buffer1 = (if chunkContent chunk \<noteq> [] then buffer @ chunkContent chunk else buffer)
      in case processLoop callTool format chunk buffer1 w of
           (evs, buffer', w') \<Rightarrow> (Yield chunk # evs, buffer', w'))"

text \<open>A stream: the chunks are fed to one instance one after the other.\<close>

fun processStream ::
  "('w, 'res) tool \<Rightarrow> 'res formatter \<Rightarrow> 'a chunk_scheme list \<Rightarrow> string \<Rightarrow> 'w
     \<Rightarrow> 'a event list \<times> string \<times> 'w" where
  "processStream callTool format [] buffer w = ([], buffer, w)"
| "processStream callTool format (chunk # chunks) buffer w =
     (case processChunk callTool format chunk buffer w of
        (evs, buffer', w') \<Rightarrow>
          (case processStream callTool format chunks buffer' w' of
             (evs', buffer'', w'') \<Rightarrow> (evs @ evs', buffer'', w'')))"

subsection \<open>Complete blocks\<close>

text \<open>
  The text of one block: the opening tag, a body and the closing tag, where the closing
  tag that ends the text is the first closing tag in it (the lazy pattern stops at the
  first one).
\<close>

definition block_of :: "string \<Rightarrow> string" where
  "block_of body = open_tag @ body @ close_tag"

definition closes_at_end :: "string \<Rightarrow> bool" where
  "closes_at_end body \<longleftrightarrow>
     index_of close_tag (block_of body) = Some (length open_tag + length body)"

text \<open>
  Lines 49 to 51: the text behind a block, after the one trailing fence marker that
  \<open>findCompleteBlock\<close> skips when it is there.
\<close>

definition after_fence :: "string \<Rightarrow> string" where
  "after_fence s =
     drop (case js_match trailing_fence_re s of Some fm \<Rightarrow> length (whole fm) | None \<Rightarrow> 0) s"

subsection \<open>The dispatch outcome of a run\<close>

text \<open>
  What a run dispatched, in order: the arguments of every call of the tool and the
  content of every status chunk. The chunks passed through are left out.
\<close>

fun dispatch_outcome :: "'a event list \<Rightarrow> (string \<times> string \<times> bool + payload) list" where
  "dispatch_outcome [] = []"
| "dispatch_outcome (Yield c # evs) = dispatch_outcome evs"
| "dispatch_outcome (CallTool fp cnt cf # evs) = Inl (fp, cnt, cf) # dispatch_outcome evs"
| "dispatch_outcome (YieldStatus c # evs) = Inr (content c) # dispatch_outcome evs"

subsection \<open>A tool and a formatter for the examples\<close>

text \<open>
  The tool writes into a list of files, except that writing \<^verbatim>\<open>full.md\<close> throws
  \<^verbatim>\<open>new Error("disk full")\<close>.
\<close>

definition example_tool :: "((string \<times> string) list, string) tool" where
  "example_tool fp cnt cf w =
     (if fp = ''full.md'' then (Inl (Thrown (Some ''disk full'') ''Error: disk full''), w)
      else (Inr fp, w @ [(fp, cnt)]))"

definition example_format :: "string formatter" where
  "example_format result = Inr (''wrote '' @ result)"

text \<open>The chunks, blocks and errors of the examples.\<close>

definition no_chunk :: chunk where
  "no_chunk = \<lparr>content = Absent\<rparr>"

definition pathless_body :: string where
  "pathless_body = ''<content>x</content>''"

definition full_block :: string where
  "full_block = ''<writeToFile><path>full.md</path><content>x</content></writeToFile>''"

definition disk_full :: thrown where
  "disk_full = Thrown (Some ''disk full'') ''Error: disk full''"

definition contentless_block :: string where
  "contentless_block = ''<writeToFile><path>a.md</path></writeToFile>''"

definition reversed_block :: string where
  "reversed_block = ''<writeToFile><content>x</content><path>a</path></writeToFile>''"

definition padded_block :: string where
  "padded_block = ''<writeToFile><path> a.md </path><content>  </content></writeToFile>''"

definition blank_path_block :: string where
  "blank_path_block = ''<writeToFile><path>  </path><content>x</content></writeToFile>''"

definition stray_contentless :: string where
  "stray_contentless = ''</writeToFile><writeToFile><path>a.md</path></writeToFile>''"

definition stray_buffer :: string where
  "stray_buffer = ''</writeToFile><writeToFile><path>a</path><content>x</content></writeToFile>''"

definition hi_body :: string where
  "hi_body = ''<path>a.md</path><content>hi</content>''"

definition hi_fragments :: "chunk list" where
  "hi_fragments =
     [\<lparr>content = Text ''<write''\<rparr>,
      \<lparr>content = Absent\<rparr>,
      \<lparr>content = Items [Item ''text'' (Some ''ToFile><path>a.md</pa''), Item ''image'' None,
                        Item ''text'' (Some ''th><content>hi</content></write'')]\<rparr>,
      \<lparr>content = Text ''ToFile>''\<rparr>]"

definition hi_chunk :: chunk where
  "hi_chunk = \<lparr>content = Text (block_of hi_body)\<rparr>"

definition fenced_body :: string where
  "fenced_body = ''<path>b.md</path><content>x</content>''"

definition unfinished_tail :: string where
  "unfinished_tail = ''<writeToFile><path>b.md</path><content>never closed''"

definition closed_then_open :: "chunk list" where
  "closed_then_open =
     [\<lparr>content = Text (block_of hi_body @ '' then <write'')\<rparr>,
      \<lparr>content = Text ''ToFile><path>b.md</path><content>never closed''\<rparr>]"

definition only_open :: "chunk list" where
  "only_open =
     [\<lparr>content = Text ''intro <write''\<rparr>,
      \<lparr>content = Text ''ToFile><path>b.md</path><content>never closed''\<rparr>]"

section \<open>The patterns as scans\<close>

text \<open>\<open>index_of\<close> gives the first occurrence.\<close>

lemma index_of_Some_iff:
  "index_of t s = Some n \<longleftrightarrow>
     n \<le> length s \<and> prefix t (drop n s) \<and> (\<forall>i<n. \<not> prefix t (drop i s))"
proof (induction s arbitrary: n)
  case Nil
  then show ?case by auto
next
  case (Cons x xs)
  show ?case
  proof (cases "prefix t (x # xs)")
    case True
    then show ?thesis by (cases n) auto
  next
    case False
    show ?thesis
    proof (cases n)
      case 0
      with False show ?thesis by simp
    next
      case (Suc n')
      have "(\<forall>i<Suc n'. \<not> prefix t (drop i (x # xs))) \<longleftrightarrow> (\<forall>i<n'. \<not> prefix t (drop i xs))"
        using False by (auto simp: less_Suc_eq_0_disj)
      with False Suc Cons.IH[of n'] show ?thesis by auto
    qed
  qed
qed

lemma index_of_None_iff:
  "index_of t s = None \<longleftrightarrow> (\<forall>i\<le>length s. \<not> prefix t (drop i s))"
proof (induction s)
  case Nil
  then show ?case by auto
next
  case (Cons x xs)
  have "(\<forall>i\<le>Suc (length xs). \<not> prefix t (drop i (x # xs))) \<longleftrightarrow>
        \<not> prefix t (x # xs) \<and> (\<forall>i\<le>length xs. \<not> prefix t (drop i xs))"
  proof (intro iffI conjI allI impI)
    assume a: "\<forall>i\<le>Suc (length xs). \<not> prefix t (drop i (x # xs))"
    from a have "\<not> prefix t (drop 0 (x # xs))" by blast
    then show "\<not> prefix t (x # xs)" by simp
    fix i assume "i \<le> length xs"
    with a have "\<not> prefix t (drop (Suc i) (x # xs))" by (metis Suc_le_mono)
    then show "\<not> prefix t (drop i xs)" by simp
  next
    fix i
    assume a: "\<not> prefix t (x # xs) \<and> (\<forall>i\<le>length xs. \<not> prefix t (drop i xs))"
      and i: "i \<le> Suc (length xs)"
    show "\<not> prefix t (drop i (x # xs))"
    proof (cases i)
      case 0
      with a show ?thesis by simp
    next
      case (Suc i')
      with a i show ?thesis by simp
    qed
  qed
  with Cons.IH show ?case by auto
qed

lemma index_of_drop_None:
  assumes "index_of t s = None" shows "index_of t (drop j s) = None"
proof -
  have "\<not> prefix t (drop i (drop j s))" if "i \<le> length (drop j s)" for i
  proof -
    from that have "i + j \<le> length s \<or> length s < j" by auto
    then show ?thesis
    proof
      assume "i + j \<le> length s"
      with assms have "\<not> prefix t (drop (i + j) s)" by (simp add: index_of_None_iff)
      then show ?thesis by simp
    next
      assume "length s < j"
      then have "drop i (drop j s) = drop (length s) s" by simp
      moreover from assms have "\<not> prefix t (drop (length s) s)"
        unfolding index_of_None_iff by blast
      ultimately show ?thesis by simp
    qed
  qed
  then show ?thesis unfolding index_of_None_iff by blast
qed

lemma star_lazy_any_first:
  "K (p + n, drop n u, g) = Some r \<Longrightarrow> n \<le> length u \<Longrightarrow>
   (\<forall>i<n. K (p + i, drop i u, g) = None) \<Longrightarrow> star_lazy AnyChar K p g u = Some r"
proof (induction u arbitrary: p n)
  case Nil
  then show ?case by simp
next
  case (Cons x xs)
  show ?case
  proof (cases n)
    case 0
    with Cons.prems show ?thesis by simp
  next
    case (Suc n')
    from Cons.prems(3) Suc have k0: "K (p, x # xs, g) = None" by force
    have "star_lazy AnyChar K (Suc p) g xs = Some r"
    proof (rule Cons.IH[of _ n'])
      show "K (Suc p + n', drop n' xs, g) = Some r" using Cons.prems(1) Suc by simp
      show "n' \<le> length xs" using Cons.prems(2) Suc by simp
      show "\<forall>i<n'. K (Suc p + i, drop i xs, g) = None"
      proof (intro allI impI)
        fix i assume "i < n'"
        then have "K (p + Suc i, drop (Suc i) (x # xs), g) = None"
          using Cons.prems(3) Suc by (metis Suc_less_eq)
        then show "K (Suc p + i, drop i xs, g) = None" by simp
      qed
    qed
    with k0 show ?thesis by simp
  qed
qed

lemma star_lazy_any_none:
  "(\<forall>i\<le>length u. K (p + i, drop i u, g) = None) \<Longrightarrow> star_lazy AnyChar K p g u = None"
proof (induction u arbitrary: p)
  case Nil
  then show ?case by simp
next
  case (Cons x xs)
  from Cons.prems have k0: "K (p, x # xs, g) = None" by force
  have "star_lazy AnyChar K (Suc p) g xs = None"
  proof (rule Cons.IH, intro allI impI)
    fix i assume "i \<le> length xs"
    then have "K (p + Suc i, drop (Suc i) (x # xs), g) = None"
      using Cons.prems by (metis Suc_le_mono length_Cons)
    then show "K (Suc p + i, drop i xs, g) = None" by simp
  qed
  with k0 show ?case by simp
qed

lemma star_greedy_space_max:
  "(\<forall>x\<in>set a. is_space x) \<Longrightarrow> (case t of [] \<Rightarrow> True | y # ys \<Rightarrow> \<not> is_space y) \<Longrightarrow>
   k (p + length a, t, g) = Some r \<Longrightarrow> star_greedy Space k p g (a @ t) = Some r"
proof (induction a arbitrary: p)
  case Nil
  then show ?case by (cases t) auto
next
  case (Cons x xs)
  from Cons.prems have "star_greedy Space k (Suc p) g (xs @ t) = Some r"
    by (intro Cons.IH) auto
  with Cons.prems show ?case by simp
qed

text \<open>
  A literal, anything (lazily), a literal: the match is found by two scans, for the first
  occurrence of the first literal and for the first occurrence of the second after it.
\<close>

lemma m_tag_group:
  "m (Seq (Lit a) (Seq (Group (LazyStar AnyChar)) (Lit b))) Some (i, t, None) =
     (if prefix a t
      then (case index_of b (drop (length a) t) of
              None \<Rightarrow> None
            | Some n \<Rightarrow> Some (i + length a + n + length b, drop (length a + n + length b) t,
                              Some (take n (drop (length a) t))))
      else None)"
proof (cases "prefix a t")
  case False
  then show ?thesis by simp
next
  case True
  define u where "u = drop (length a) t"
  define p where "p = i + length a"
  define K :: "mstate \<Rightarrow> mstate option" where
    "K = (\<lambda>(e, s', g'). m (Lit b) Some (e, s', Some (take (e - p) u)))"
  have lhs: "m (Seq (Lit a) (Seq (Group (LazyStar AnyChar)) (Lit b))) Some (i, t, None)
      = star_lazy AnyChar K p None u"
    using True by (simp add: K_def u_def p_def)
  have Kn: "K (p + n, drop n u, None) =
      (if prefix b (drop n u) then Some (p + n + length b, drop (n + length b) u, Some (take n u)) else None)" for n
    by (simp add: K_def add.commute)
  show ?thesis
  proof (cases "index_of b u")
    case None
    then have "\<forall>n\<le>length u. K (p + n, drop n u, None) = None"
      by (simp add: Kn index_of_None_iff)
    then have "star_lazy AnyChar K p None u = None" by (rule star_lazy_any_none)
    with lhs None True show ?thesis by (simp add: u_def)
  next
    case (Some n)
    then have n: "n \<le> length u" "prefix b (drop n u)" "\<forall>i<n. \<not> prefix b (drop i u)"
      by (simp_all add: index_of_Some_iff)
    have "star_lazy AnyChar K p None u = Some (p + n + length b, drop (n + length b) u, Some (take n u))"
      by (rule star_lazy_any_first[where n = n]) (use n in \<open>simp_all add: Kn\<close>)
    with lhs Some True show ?thesis by (simp add: u_def p_def ac_simps)
  qed
qed

lemma m_tag_plain:
  "m (Seq (Lit a) (Seq (LazyStar AnyChar) (Lit b))) Some (i, t, None) =
     (if prefix a t
      then (case index_of b (drop (length a) t) of
              None \<Rightarrow> None
            | Some n \<Rightarrow> Some (i + length a + n + length b, drop (length a + n + length b) t, None))
      else None)"
proof (cases "prefix a t")
  case False
  then show ?thesis by simp
next
  case True
  define u where "u = drop (length a) t"
  define p where "p = i + length a"
  have lhs: "m (Seq (Lit a) (Seq (LazyStar AnyChar) (Lit b))) Some (i, t, None)
      = star_lazy AnyChar (m (Lit b) Some) p None u"
    using True by (simp add: u_def p_def)
  have Kn: "m (Lit b) Some (p + n, drop n u, None) =
      (if prefix b (drop n u) then Some (p + n + length b, drop (n + length b) u, None) else None)" for n
    by (simp add: add.commute)
  show ?thesis
  proof (cases "index_of b u")
    case None
    then have "\<forall>n\<le>length u. m (Lit b) Some (p + n, drop n u, None) = None"
      by (simp add: index_of_None_iff)
    then have "star_lazy AnyChar (m (Lit b) Some) p None u = None" by (rule star_lazy_any_none)
    with lhs None True show ?thesis by (simp add: u_def)
  next
    case (Some n)
    then have n: "n \<le> length u" "prefix b (drop n u)" "\<forall>i<n. \<not> prefix b (drop i u)"
      by (simp_all add: index_of_Some_iff)
    have "star_lazy AnyChar (m (Lit b) Some) p None u = Some (p + n + length b, drop (n + length b) u, None)"
      by (rule star_lazy_any_first[where n = n]) (use n in \<open>simp_all add: ac_simps\<close>)
    with lhs Some True show ?thesis by (simp add: u_def p_def ac_simps)
  qed
qed

lemma search_two_pointer:
  assumes M: "\<And>i t. m re Some (i, t, None) =
     (if prefix a t
      then (case index_of b (drop (length a) t) of None \<Rightarrow> None | Some n \<Rightarrow> Some (F i t n))
      else None)"
  shows "search_from re i s =
     (case index_of a s of
        None \<Rightarrow> None
      | Some j \<Rightarrow>
          (case index_of b (drop (j + length a) s) of
             None \<Rightarrow> None
           | Some n \<Rightarrow> Some (i + j, F (i + j) (drop j s) n)))"
proof (induction s arbitrary: i)
  case Nil
  show ?case by (simp add: M split: option.split)
next
  case (Cons x xs)
  show ?case
  proof (cases "prefix a (x # xs)")
    case False
    then show ?thesis by (simp add: M Cons.IH split: option.split)
  next
    case True
    show ?thesis
    proof (cases "index_of b (drop (length a) (x # xs))")
      case (Some n)
      with True show ?thesis by (simp add: M)
    next
      case None
      have "index_of b (drop (j + length a) xs) = None" for j
      proof -
        have "drop (j + length a) xs = drop (Suc j) (drop (length a) (x # xs))" by simp
        then show ?thesis using index_of_drop_None[OF None] by metis
      qed
      with True None show ?thesis by (simp add: M Cons.IH split: option.split)
    qed
  qed
qed

lemma js_match_two_pointer:
  assumes M: "\<And>i t. m re Some (i, t, None) =
     (if prefix a t
      then (case index_of b (drop (length a) t) of
              None \<Rightarrow> None
            | Some n \<Rightarrow> Some (i + length a + n + length b, drop (length a + n + length b) t, G t n))
      else None)"
  shows "js_match re s =
     (case index_of a s of
        None \<Rightarrow> None
      | Some j \<Rightarrow>
          (case index_of b (drop (j + length a) s) of
             None \<Rightarrow> None
           | Some n \<Rightarrow> Some \<lparr>index = j, whole = take (length a + n + length b) (drop j s),
                              group1 = G (drop j s) n\<rparr>))"
proof -
  have "search_from re 0 s =
     (case index_of a s of
        None \<Rightarrow> None
      | Some j \<Rightarrow>
          (case index_of b (drop (j + length a) s) of
             None \<Rightarrow> None
           | Some n \<Rightarrow> Some (0 + j, (0 + j + length a + n + length b,
                                     drop (length a + n + length b) (drop j s), G (drop j s) n))))"
    by (rule search_two_pointer[where
          F = "\<lambda>i t n. (i + length a + n + length b, drop (length a + n + length b) t, G t n)"])
       (rule M)
  then show ?thesis
    unfolding js_match_def by (simp add: add.assoc split: option.split)
qed

lemma extract_field_two_pointer:
  "extract_field (Seq (Lit a) (Seq (Group (LazyStar AnyChar)) (Lit b))) block =
     (case index_of a block of
        None \<Rightarrow> None
      | Some j \<Rightarrow>
          (case index_of b (drop (j + length a) block) of
             None \<Rightarrow> None
           | Some n \<Rightarrow> Some (trim (take n (drop (j + length a) block)))))"
proof -
  note js = js_match_two_pointer[where G = "\<lambda>t n. Some (take n (drop (length a) t))",
      OF m_tag_group]
  show ?thesis
    unfolding extract_field_def js by (simp add: ac_simps split: option.split)
qed

lemma filePath_two_pointer:
  "filePath block =
     (case index_of ''<path>'' block of
        None \<Rightarrow> None
      | Some j \<Rightarrow>
          (case index_of ''</path>'' (drop (j + 6) block) of
             None \<Rightarrow> None
           | Some n \<Rightarrow> Some (trim (take n (drop (j + 6) block)))))"
proof -
  have L: "length ''<path>'' = 6" by simp
  show ?thesis
    unfolding filePath_def path_re_def extract_field_two_pointer L by (rule refl)
qed

lemma fileContent_two_pointer:
  "fileContent block =
     (case index_of ''<content>'' block of
        None \<Rightarrow> None
      | Some j \<Rightarrow>
          (case index_of ''</content>'' (drop (j + 9) block) of
             None \<Rightarrow> None
           | Some n \<Rightarrow> Some (trim (take n (drop (j + 9) block)))))"
proof -
  have L: "length ''<content>'' = 9" by simp
  show ?thesis
    unfolding fileContent_def content_re_def extract_field_two_pointer L by (rule refl)
qed

lemma js_match_block_re:
  "js_match block_re s =
     (case index_of open_tag s of
        None \<Rightarrow> None
      | Some j \<Rightarrow>
          (case index_of close_tag (drop (j + length open_tag) s) of
             None \<Rightarrow> None
           | Some n \<Rightarrow> Some \<lparr>index = j,
                              whole = take (length open_tag + n + length close_tag) (drop j s),
                              group1 = None\<rparr>))"
  unfolding block_re_def
  by (rule js_match_two_pointer[where G = "\<lambda>t n. None", OF m_tag_plain])

lemma index_of_split:
  assumes "index_of t s = Some n"
  shows "s = take n s @ t @ drop (n + length t) s"
proof -
  from assms have "prefix t (drop n s)" by (simp add: index_of_Some_iff)
  then obtain r where r: "drop n s = t @ r" by (auto simp: prefix_def)
  then have "drop (length t) (drop n s) = r" by simp
  then have "r = drop (n + length t) s" by (simp add: add.commute)
  with r have "drop n s = t @ drop (n + length t) s" by simp
  then have "take n s @ drop n s = take n s @ t @ drop (n + length t) s" by simp
  then show ?thesis by simp
qed

subsection \<open>findCompleteBlock without a closing tag, and on one block\<close>

lemma lang_SeqD:
  "w \<in> lang (Seq a b) \<Longrightarrow> \<exists>u v. w = u @ v \<and> u \<in> lang a \<and> v \<in> lang b"
  by auto

lemma lang_fence_re_close:
  assumes "w \<in> lang fence_re"
  shows "\<exists>u v. w = u @ close_tag @ v @ fence"
proof -
  from assms[unfolded fence_re_def] obtain w1 r1 where
    1: "w = w1 @ r1" "r1 \<in> lang (Seq (Opt (Lit ''xml'')) (Seq (Star Space)
       (Seq (Group (Seq (LazyStar AnyChar) (Seq (Lit open_tag)
               (Seq (LazyStar AnyChar) (Seq (Lit close_tag) (LazyStar AnyChar))))))
         (Seq (Star Space) (Lit fence)))))"
    by (blast dest: lang_SeqD)
  from 1(2) obtain w2 r2 where
    2: "r1 = w2 @ r2" "r2 \<in> lang (Seq (Star Space)
       (Seq (Group (Seq (LazyStar AnyChar) (Seq (Lit open_tag)
               (Seq (LazyStar AnyChar) (Seq (Lit close_tag) (LazyStar AnyChar))))))
         (Seq (Star Space) (Lit fence))))"
    by (blast dest: lang_SeqD)
  from 2(2) obtain w3 r3 where
    3: "r2 = w3 @ r3" "r3 \<in> lang (Seq (Group (Seq (LazyStar AnyChar) (Seq (Lit open_tag)
               (Seq (LazyStar AnyChar) (Seq (Lit close_tag) (LazyStar AnyChar))))))
         (Seq (Star Space) (Lit fence)))"
    by (blast dest: lang_SeqD)
  from 3(2) obtain g r4 where
    4: "r3 = g @ r4" "g \<in> lang (Group (Seq (LazyStar AnyChar) (Seq (Lit open_tag)
               (Seq (LazyStar AnyChar) (Seq (Lit close_tag) (LazyStar AnyChar))))))"
       "r4 \<in> lang (Seq (Star Space) (Lit fence))"
    by (blast dest: lang_SeqD)
  from 4(3) obtain ws' where 5: "r4 = ws' @ fence" by auto
  from 4(2) have "g \<in> lang (Seq (LazyStar AnyChar) (Seq (Lit open_tag)
               (Seq (LazyStar AnyChar) (Seq (Lit close_tag) (LazyStar AnyChar)))))"
    by (simp only: lang.simps(6))
  then obtain x1 g1 where
    6: "g = x1 @ g1" "g1 \<in> lang (Seq (Lit open_tag)
               (Seq (LazyStar AnyChar) (Seq (Lit close_tag) (LazyStar AnyChar))))"
    by (blast dest: lang_SeqD)
  from 6(2) obtain g2 where
    7: "g1 = open_tag @ g2" "g2 \<in> lang (Seq (LazyStar AnyChar) (Seq (Lit close_tag) (LazyStar AnyChar)))"
    by auto
  from 7(2) obtain x2 g3 where
    8: "g2 = x2 @ g3" "g3 \<in> lang (Seq (Lit close_tag) (LazyStar AnyChar))"
    by (blast dest: lang_SeqD)
  from 8(2) obtain x3 where 9: "g3 = close_tag @ x3" by auto
  have "w = (w1 @ w2 @ w3 @ x1 @ open_tag @ x2) @ close_tag @ (x3 @ ws') @ fence"
    by (simp add: 1(1) 2(1) 3(1) 4(1) 5 6(1) 7(1) 8(1) 9)
  then show ?thesis by blast
qed

lemma index_of_occurrence:
  assumes "s = u @ t @ v"
  shows "\<exists>n. index_of t s = Some n \<and> n \<le> length u"
proof (cases "index_of t s")
  case None
  have "prefix t (drop (length u) s)" using assms by simp
  moreover have "length u \<le> length s" using assms by simp
  ultimately show ?thesis using None by (simp add: index_of_None_iff)
next
  case (Some n)
  have "prefix t (drop (length u) s)" using assms by simp
  with Some have "\<not> length u < n" by (auto simp: index_of_Some_iff)
  with Some show ?thesis by simp
qed

lemma fence_search_close:
  assumes "search_from fence_re i s = Some r"
  shows "\<exists>u v x. s = u @ close_tag @ v @ fence @ x"
proof -
  obtain j e s' g where r: "r = (j, (e, s', g))" by (cases r) auto
  from search_from_sound[OF assms[unfolded r]] obtain a w where
    s: "s = a @ w @ s'" and w: "w \<in> lang fence_re" by blast
  from lang_fence_re_close[OF w] obtain u v where "w = u @ close_tag @ v @ fence" by blast
  with s have "s = (a @ u) @ close_tag @ v @ fence @ s'" by simp
  then show ?thesis by blast
qed

lemma no_close_no_fence:
  assumes "index_of close_tag s = None"
  shows "search_from fence_re i s = None"
proof (rule ccontr)
  assume "search_from fence_re i s \<noteq> None"
  then obtain r where "search_from fence_re i s = Some r" by auto
  from fence_search_close[OF this] obtain u v x where "s = u @ close_tag @ (v @ fence @ x)"
    by auto
  from index_of_occurrence[OF this] assms show False by simp
qed

lemma stripCodeFences_id:
  "search_from fence_re 0 s = None \<Longrightarrow> stripCodeFences s = s"
  by (simp add: stripCodeFences_def replace_g1_def replace_from.simps)

lemma findCompleteBlock_no_close:
  assumes "index_of close_tag s = None"
  shows "findCompleteBlock s = None"
proof -
  have c: "stripCodeFences s = s" by (rule stripCodeFences_id) (rule no_close_no_fence[OF assms])
  have "js_match block_re s = None"
    using index_of_drop_None[OF assms] by (simp add: js_match_block_re split: option.split)
  then show ?thesis by (simp add: findCompleteBlock_def c)
qed

lemma index_of_drop_Some:
  assumes "index_of t s = Some (k + n)"
  shows "index_of t (drop k s) = Some n"
proof -
  from assms have a: "k + n \<le> length s" "prefix t (drop (k + n) s)"
    "\<forall>i<k + n. \<not> prefix t (drop i s)" by (simp_all add: index_of_Some_iff)
  have "\<not> prefix t (drop i (drop k s))" if "i < n" for i
  proof -
    from that have "i + k < k + n" by simp
    with a(3) have "\<not> prefix t (drop (i + k) s)" by blast
    then show ?thesis by simp
  qed
  moreover have "prefix t (drop n (drop k s))" using a(2) by (simp add: add.commute)
  moreover have "n \<le> length (drop k s)" using a(1) by simp
  ultimately show ?thesis by (simp add: index_of_Some_iff)
qed

lemma js_match_trailing_fence_Nil: "js_match trailing_fence_re [] = None"
  by (simp add: js_match_def trailing_fence_re_def fence_def)

lemma block_of_no_fence:
  assumes "closes_at_end body"
  shows "search_from fence_re i (block_of body) = None"
proof (rule ccontr)
  assume "search_from fence_re i (block_of body) \<noteq> None"
  then obtain r where "search_from fence_re i (block_of body) = Some r" by auto
  from fence_search_close[OF this] obtain u v x where
    s: "block_of body = u @ close_tag @ (v @ fence @ x)" by auto
  from index_of_occurrence[OF s] assms have "length open_tag + length body \<le> length u"
    by (simp add: closes_at_end_def)
  moreover from s have "length (block_of body) = length (u @ close_tag @ (v @ fence @ x))"
    by simp
  ultimately show False by (simp add: block_of_def fence_def)
qed

lemma findCompleteBlock_block:
  assumes "closes_at_end body"
  shows "findCompleteBlock (block_of body) = Some (block_of body, int (length (block_of body)))"
proof -
  let ?b = "block_of body"
  have c: "stripCodeFences ?b = ?b"
    by (rule stripCodeFences_id) (rule block_of_no_fence[OF assms])
  have io: "index_of open_tag ?b = Some 0"
    by (simp add: index_of_Some_iff block_of_def)
  from assms have ic0: "index_of close_tag ?b = Some (length open_tag + length body)"
    by (simp add: closes_at_end_def)
  from index_of_drop_Some[OF ic0] have ic: "index_of close_tag (drop (length open_tag) ?b) = Some (length body)" .
  have "js_match block_re ?b = Some \<lparr>index = 0, whole = ?b, group1 = None\<rparr>"
    using io ic by (simp add: js_match_block_re) (simp add: block_of_def)
  moreover have "indexOf ?b close_tag + int (length close_tag) = int (length ?b)"
    using ic0 by (simp add: indexOf_def block_of_def)
  ultimately show ?thesis
    by (simp add: findCompleteBlock_def c Let_def substring_def js_match_trailing_fence_Nil)
qed

subsection \<open>The fence pattern on a fenced block\<close>

lemma m_Lit_append: "m (Lit l) k (p, l @ s, g) = k (p + length l, s, g)"
  by simp

lemma m_Lit_fail: "\<not> prefix l s \<Longrightarrow> m (Lit l) k (p, s, g) = None"
  by simp

lemma m_lazy_any_now:
  "k (p, s, g) = Some r \<Longrightarrow> m (LazyStar AnyChar) k (p, s, g) = Some r"
  using star_lazy_any_first[of k p 0 s g r] by simp

lemma m_lazy_any_skip:
  assumes "k (p + length a, s, g) = Some r"
    and "\<forall>i<length a. k (p + i, drop i (a @ s), g) = None"
  shows "m (LazyStar AnyChar) k (p, a @ s, g) = Some r"
  using star_lazy_any_first[of k p "length a" "a @ s" g r] assms by simp

lemma m_star_space_max:
  assumes "\<forall>x\<in>set a. is_space x"
    and "case s of [] \<Rightarrow> True | y # ys \<Rightarrow> \<not> is_space y"
    and "k (p + length a, s, g) = Some r"
  shows "m (Star Space) k (p, a @ s, g) = Some r"
  using star_greedy_space_max[of a s k p g r] assms by simp

lemma search_from_here:
  "m re Some (i, s, None) = Some st \<Longrightarrow> search_from re i s = Some (i, st)"
  by (cases s) simp_all

lemma index_of_append_Some:
  assumes "index_of t s = Some n"
  shows "index_of t (s @ r) = Some n"
proof -
  from assms have a: "n \<le> length s" "prefix t (drop n s)" "\<forall>i<n. \<not> prefix t (drop i s)"
    by (simp_all add: index_of_Some_iff)
  from a(2) have len: "n + length t \<le> length s"
    by (metis a(1) add.commute le_diff_conv2 length_drop prefix_length_le)
  have "\<not> prefix t (drop i (s @ r))" if "i < n" for i
  proof
    assume p: "prefix t (drop i (s @ r))"
    from that len have "length t \<le> length (drop i s)" by simp
    moreover from p that a(1) have "prefix t (drop i s @ r)" by simp
    ultimately have "prefix t (drop i s)"
      by (metis prefix_length_prefix prefix_append prefixI append_prefixD prefix_order.eq_iff)
    with a(3) that show False by blast
  qed
  moreover from a(1,2) have "prefix t (drop n (s @ r))" by (simp add: prefix_prefix)
  ultimately show ?thesis using a(1) by (simp add: index_of_Some_iff)
qed

lemma index_of_skip_prefix:
  assumes "\<forall>c\<in>set pre. c \<noteq> x"
  shows "index_of (x # t) (pre @ s) = map_option (\<lambda>n. length pre + n) (index_of (x # t) s)"
  using assms
proof (induction pre)
  case Nil
  have "(\<lambda>n::nat. n) = id" by auto
  then show ?case by (simp add: option.map_id)
next
  case (Cons c pre)
  then have ne: "c \<noteq> x" and rest: "\<forall>c\<in>set pre. c \<noteq> x" by simp_all
  from ne have "index_of (x # t) ((c # pre) @ s) = map_option Suc (index_of (x # t) (pre @ s))"
    by simp
  also have "\<dots> = map_option Suc (map_option (\<lambda>n. length pre + n) (index_of (x # t) s))"
    by (simp only: Cons.IH[OF rest])
  also have "\<dots> = map_option (\<lambda>n. length (c # pre) + n) (index_of (x # t) s)"
    by (simp add: option.map_comp comp_def)
  finally show ?case .
qed

lemma not_space_backtick: "\<not> is_space (CHR 0x60)" and not_space_lt: "\<not> is_space CHR ''<''"
  by (simp_all add: is_space_def)

lemma body_no_close:
  assumes "closes_at_end body" and "i < length body"
  shows "\<not> prefix close_tag (drop i (body @ close_tag @ t))"
proof -
  from assms(1) have "index_of close_tag (open_tag @ body @ close_tag) = Some (length open_tag + length body)"
    by (simp add: closes_at_end_def block_of_def)
  from index_of_drop_Some[OF this] have "index_of close_tag (body @ close_tag) = Some (length body)"
    by simp
  from index_of_append_Some[OF this, of t]
  have "index_of close_tag (body @ close_tag @ t) = Some (length body)" by simp
  with assms(2) show ?thesis by (simp add: index_of_Some_iff)
qed

lemma m_fence_re_wrapped:
  assumes cl: "closes_at_end body"
    and l: "l = [] \<or> l = ''xml''"
    and ws1: "\<forall>x\<in>set ws1. is_space x" and ws2: "\<forall>x\<in>set ws2. is_space x"
  shows "m fence_re Some (i, fence @ l @ ws1 @ block_of body @ ws2 @ fence @ rest, None)
       = Some (i + length (fence @ l @ ws1 @ block_of body @ ws2 @ fence), rest,
               Some (block_of body))"
proof -
  let ?b = "block_of body"
  let ?T = "ws2 @ fence @ rest"
  define K4 :: "mstate \<Rightarrow> mstate option" where "K4 = m (Seq (Star Space) (Lit fence)) Some"
  define G where "G = Seq (LazyStar AnyChar) (Seq (Lit open_tag)
               (Seq (LazyStar AnyChar) (Seq (Lit close_tag) (LazyStar AnyChar))))"
  have k4: "K4 (q, ?T, g) = Some (q + length ws2 + length fence, rest, g)" for q g
  proof -
    have "m (Lit fence) Some (q + length ws2, fence @ rest, g)
        = Some (q + length ws2 + length fence, rest, g)" by (simp only: m_Lit_append)
    moreover have "case fence @ rest of [] \<Rightarrow> True | y # ys \<Rightarrow> \<not> is_space y"
      by (simp add: fence_def not_space_backtick)
    ultimately have "m (Star Space) (m (Lit fence) Some) (q, ws2 @ fence @ rest, g)
        = Some (q + length ws2 + length fence, rest, g)"
      using ws2 by (intro m_star_space_max)
    then show ?thesis by (simp only: K4_def m.simps(5))
  qed
  have grp: "m (Group G) K4 (p0, ?b @ ?T, g) =
      Some (p0 + length ?b + length ws2 + length fence, rest, Some ?b)" for p0 g
  proof -
    define Kg :: "mstate \<Rightarrow> mstate option" where
      "Kg = (\<lambda>(e, s', g'). K4 (e, s', Some (take (e - p0) (?b @ ?T))))"
    let ?R = "Some (p0 + length ?b + length ws2 + length fence, rest, Some ?b)"
    have kg: "Kg (p0 + length ?b, ?T, g) = ?R"
      by (simp add: Kg_def k4)
    have g3: "m (LazyStar AnyChar) Kg (p0 + length ?b, ?T, g) = ?R"
      using kg by (rule m_lazy_any_now)
    have g2: "m (Lit close_tag) (m (LazyStar AnyChar) Kg)
        (p0 + length open_tag + length body, close_tag @ ?T, g) = ?R"
      using g3 by (simp only: m_Lit_append) (simp add: block_of_def add.assoc)
    have g1: "m (LazyStar AnyChar) (m (Lit close_tag) (m (LazyStar AnyChar) Kg))
        (p0 + length open_tag, body @ close_tag @ ?T, g) = ?R"
    proof (rule m_lazy_any_skip)
      show "m (Lit close_tag) (m (LazyStar AnyChar) Kg)
          (p0 + length open_tag + length body, close_tag @ ?T, g) = ?R" by (rule g2)
      show "\<forall>i<length body. m (Lit close_tag) (m (LazyStar AnyChar) Kg)
          (p0 + length open_tag + i, drop i (body @ close_tag @ ?T), g) = None"
        using body_no_close[OF cl] by (intro allI impI m_Lit_fail) blast
    qed
    have g0: "m (Lit open_tag) (m (LazyStar AnyChar) (m (Lit close_tag) (m (LazyStar AnyChar) Kg)))
        (p0, open_tag @ body @ close_tag @ ?T, g) = ?R"
      using g1 by (simp only: m_Lit_append)
    have gs: "m (LazyStar AnyChar) (m (Lit open_tag) (m (LazyStar AnyChar)
        (m (Lit close_tag) (m (LazyStar AnyChar) Kg)))) (p0, open_tag @ body @ close_tag @ ?T, g) = ?R"
      using g0 by (rule m_lazy_any_now)
    have "m G Kg (p0, ?b @ ?T, g) = ?R"
      using gs by (simp only: G_def m.simps(5) block_of_def append_assoc)
    then show ?thesis by (simp add: Kg_def)
  qed
  have st: "m (Star Space) (m (Group G) K4) (p, ws1 @ ?b @ ?T, g) =
      Some (p + length ws1 + length ?b + length ws2 + length fence, rest, Some ?b)" for p g
  proof (rule m_star_space_max[OF ws1])
    show "case ?b @ ?T of [] \<Rightarrow> True | y # ys \<Rightarrow> \<not> is_space y"
      by (simp add: block_of_def open_tag_def not_space_lt)
    show "m (Group G) K4 (p + length ws1, ?b @ ?T, g) =
      Some (p + length ws1 + length ?b + length ws2 + length fence, rest, Some ?b)"
      by (rule grp)
  qed
  let ?K1 = "m (Star Space) (m (Group G) K4)"
  have opt: "m (Opt (Lit ''xml'')) ?K1 (p, l @ ws1 @ ?b @ ?T, g) =
      Some (p + length l + length ws1 + length ?b + length ws2 + length fence, rest, Some ?b)" for p g
  proof (cases "l = []")
    case True
    have "\<not> prefix ''xml'' (ws1 @ ?b @ ?T)"
    proof (cases ws1)
      case Nil
      then show ?thesis by (simp add: block_of_def open_tag_def)
    next
      case (Cons x xs)
      with ws1 have "is_space x" by simp
      then have "x \<noteq> CHR ''x''" by (auto simp: is_space_def)
      with Cons show ?thesis by simp
    qed
    then have "m (Lit ''xml'') ?K1 (p, ws1 @ ?b @ ?T, g) = None" by (rule m_Lit_fail)
    then have "m (Opt (Lit ''xml'')) ?K1 (p, ws1 @ ?b @ ?T, g) = ?K1 (p, ws1 @ ?b @ ?T, g)"
      by (simp only: m.simps(4) option.case)
    with st[of p g] True show ?thesis by simp
  next
    case False
    with l have lx: "l = ''xml''" by simp
    have "m (Lit ''xml'') ?K1 (p, ''xml'' @ ws1 @ ?b @ ?T, g) = ?K1 (p + length ''xml'', ws1 @ ?b @ ?T, g)"
      by (simp only: m_Lit_append)
    with st[of "p + length ''xml''" g]
    have "m (Lit ''xml'') ?K1 (p, ''xml'' @ ws1 @ ?b @ ?T, g) =
      Some (p + length ''xml'' + length ws1 + length ?b + length ws2 + length fence, rest, Some ?b)"
      by simp
    then have "m (Opt (Lit ''xml'')) ?K1 (p, ''xml'' @ ws1 @ ?b @ ?T, g) =
      Some (p + length ''xml'' + length ws1 + length ?b + length ws2 + length fence, rest, Some ?b)"
      by (simp only: m.simps(4) option.case)
    with lx show ?thesis by simp
  qed
  have "m (Lit fence) (m (Opt (Lit ''xml'')) ?K1) (i, fence @ l @ ws1 @ ?b @ ?T, None) =
      Some (i + length fence + length l + length ws1 + length ?b + length ws2 + length fence, rest, Some ?b)"
    using opt[of "i + length fence" None] by (simp only: m_Lit_append)
  then have "m fence_re Some (i, fence @ l @ ws1 @ ?b @ ?T, None) =
      Some (i + length fence + length l + length ws1 + length ?b + length ws2 + length fence, rest, Some ?b)"
    by (simp only: fence_re_def m.simps(5) K4_def G_def)
  then show ?thesis by (simp add: add.assoc)
qed

lemma js_match_block_here:
  assumes "closes_at_end body"
  shows "js_match block_re (block_of body @ r) = Some \<lparr>index = 0, whole = block_of body, group1 = None\<rparr>"
proof -
  have io: "index_of open_tag (block_of body @ r) = Some 0"
    by (simp add: index_of_Some_iff block_of_def)
  from assms have "index_of close_tag (block_of body) = Some (length open_tag + length body)"
    by (simp add: closes_at_end_def)
  from index_of_drop_Some[OF index_of_append_Some[OF this, of r]]
  have ic: "index_of close_tag (drop (length open_tag) (block_of body @ r)) = Some (length body)" .
  show ?thesis
    using io ic by (simp add: js_match_block_re) (simp add: block_of_def)
qed

lemma js_match_trailing_fence_here:
  assumes "\<forall>x\<in>set ws. is_space x"
  shows "js_match trailing_fence_re (ws @ fence @ rest)
       = Some \<lparr>index = 0, whole = ws @ fence, group1 = None\<rparr>"
proof -
  have "m (Lit fence) Some (0 + length ws, fence @ rest, None)
      = Some (0 + length ws + length fence, rest, None)" by (simp only: m_Lit_append)
  moreover have "case fence @ rest of [] \<Rightarrow> True | y # ys \<Rightarrow> \<not> is_space y"
    by (simp add: fence_def not_space_backtick)
  ultimately have "m (Star Space) (m (Lit fence) Some) (0, ws @ fence @ rest, None)
      = Some (0 + length ws + length fence, rest, None)"
    using assms by (intro m_star_space_max)
  then have "m trailing_fence_re Some (0, ws @ fence @ rest, None)
      = Some (length ws + length fence, rest, None)"
    by (simp add: trailing_fence_re_def)
  from search_from_here[OF this] show ?thesis by (simp add: js_match_def)
qed

lemma findCompleteBlock_wrapped:
  assumes cl: "closes_at_end body"
    and l: "l = [] \<or> l = ''xml''"
    and ws1: "\<forall>x\<in>set ws1. is_space x" and ws2: "\<forall>x\<in>set ws2. is_space x"
  shows "findCompleteBlock (fence @ l @ ws1 @ block_of body @ ws2 @ fence @ rest)
       = Some (block_of body, int (length (fence @ l @ ws1 @ block_of body @ ws2 @ fence)))"
proof -
  let ?b = "block_of body"
  let ?pre = "fence @ l @ ws1"
  let ?s = "fence @ l @ ws1 @ ?b @ ws2 @ fence @ rest"
  define e where "e = length (fence @ l @ ws1 @ ?b @ ws2 @ fence)"
  have e: "\<not> e \<le> 0" by (simp add: e_def fence_def)
  from search_from_here[OF m_fence_re_wrapped[OF assms, of 0 rest]]
  have "search_from fence_re 0 ?s = Some (0, (e, rest, Some ?b))" by (simp add: e_def)
  then have "replace_from fence_re 0 ?s = ?b @ replace_from fence_re e rest"
    using e by (subst replace_from.simps) simp
  then have c: "stripCodeFences ?s = ?b @ replace_from fence_re e rest"
    by (simp add: stripCodeFences_def replace_g1_def)
  have "\<forall>c\<in>set fence. c \<noteq> CHR ''<''" by (simp add: fence_def)
  moreover have "\<forall>c\<in>set l. c \<noteq> CHR ''<''" using l by auto
  moreover have "\<forall>c\<in>set ws1. c \<noteq> CHR ''<''" using ws1 not_space_lt by blast
  ultimately have pre: "\<forall>c\<in>set ?pre. c \<noteq> CHR ''<''" by (simp add: ball_Un)
  from cl have "index_of close_tag ?b = Some (length open_tag + length body)"
    by (simp add: closes_at_end_def)
  from index_of_append_Some[OF this, of "ws2 @ fence @ rest"]
  have "index_of (CHR ''<'' # ''/writeToFile>'') (?b @ ws2 @ fence @ rest)
      = Some (length open_tag + length body)" by (simp add: close_tag_def)
  with index_of_skip_prefix[OF pre, of "''/writeToFile>''" "?b @ ws2 @ fence @ rest"]
  have "index_of close_tag (?pre @ ?b @ ws2 @ fence @ rest)
      = Some (length ?pre + (length open_tag + length body))" by (simp add: close_tag_def)
  then have io: "indexOf ?s close_tag + int (length close_tag) = int (length (?pre @ ?b))"
    by (simp add: indexOf_def block_of_def)
  have sub: "substring ?s (int (length (?pre @ ?b))) = ws2 @ fence @ rest"
  proof -
    have gen: "drop (length xs) (xs @ ys) = ys" for xs ys :: string by simp
    from gen[of "?pre @ ?b" "ws2 @ fence @ rest"]
    have "drop (length (?pre @ ?b)) ?s = ws2 @ fence @ rest"
      by (simp only: append_assoc)
    then show ?thesis by (simp only: substring_def nat_int)
  qed
  show ?thesis
    unfolding findCompleteBlock_def Let_def c js_match_block_here[OF cl] io sub
      js_match_trailing_fence_here[OF ws2]
    by simp
qed

section \<open>The steps of the loop\<close>

lemma processLoop_None:
  "findCompleteBlock buffer = None \<Longrightarrow> processLoop callTool format chunk buffer w = ([], buffer, w)"
  by (subst processLoop.simps) simp

lemma processLoop_skip:
  assumes "findCompleteBlock buffer = Some (block, endIdx)"
    and "filePath block = None \<or> filePath block = Some []"
  shows "processLoop callTool format chunk buffer w
       = processLoop callTool format chunk (substring buffer endIdx) w"
  using assms by (subst processLoop.simps) auto

lemma processLoop_dispatch:
  assumes "findCompleteBlock buffer = Some (block, endIdx)"
    and "filePath block = Some fp" and "fp \<noteq> []"
  shows "processLoop callTool format chunk buffer w =
     (case dispatch callTool format chunk fp (fileContent block) w of
        (evs, w') \<Rightarrow>
          (case processLoop callTool format chunk (substring buffer endIdx) w' of
             (evs', buffer', w'') \<Rightarrow> (evs @ evs', buffer', w'')))"
  using assms by (subst processLoop.simps) simp

lemma processLoop_final:
  "findCompleteBlock (fst (snd (processLoop callTool format chunk buffer w))) = None"
proof (induction callTool format chunk buffer w rule: processLoop.induct)
  case (1 callTool format chunk buffer w)
  show ?case
  proof (cases "findCompleteBlock buffer")
    case None
    then show ?thesis by (simp add: processLoop_None)
  next
    case (Some be)
    obtain block endIdx where be: "(block, endIdx) = be" by (cases be) auto
    then have fcb: "findCompleteBlock buffer = Some (block, endIdx)" using Some by simp
    show ?thesis
    proof (cases "filePath block")
      case None
      from "1.IH"(1)[OF Some be None] show ?thesis
        by (simp add: processLoop_skip[OF fcb disjI1[OF None]])
    next
      case (Some fp)
      show ?thesis
      proof (cases "fp = []")
        case True
        have e: "filePath block = None \<or> filePath block = Some []" using Some True by simp
        from "1.IH"(2)[OF \<open>findCompleteBlock buffer = Some be\<close> be Some True] show ?thesis
          by (simp add: processLoop_skip[OF fcb e])
      next
        case False
        obtain evs w' where d: "(evs, w') = dispatch callTool format chunk fp (fileContent block) w"
          by (cases "dispatch callTool format chunk fp (fileContent block) w") auto
        obtain evs' buffer' w'' where
          r: "processLoop callTool format chunk (substring buffer endIdx) w' = (evs', buffer', w'')"
          by (cases "processLoop callTool format chunk (substring buffer endIdx) w'")
        from "1.IH"(3)[OF \<open>findCompleteBlock buffer = Some be\<close> be Some False d]
        show ?thesis
          by (simp add: processLoop_dispatch[OF fcb Some False] d[symmetric] r)
      qed
    qed
  qed
qed

lemma dispatch_thrown:
  assumes "callTool fp (case fc of Some c \<Rightarrow> c | None \<Rightarrow> []) False w = (Inl err, w')"
  shows "dispatch callTool format chunk fp fc w =
     ([CallTool fp (case fc of Some c \<Rightarrow> c | None \<Rightarrow> []) False,
       YieldStatus (chunk\<lparr>content := Text (error_status err)\<rparr>)], w')"
  using assms by (simp add: dispatch_def)

lemma dispatch_shape:
  "\<exists>st. dispatch callTool format chunk fp fc w =
     ([CallTool fp (case fc of Some c \<Rightarrow> c | None \<Rightarrow> []) False,
       YieldStatus (chunk\<lparr>content := Text st\<rparr>)],
      snd (callTool fp (case fc of Some c \<Rightarrow> c | None \<Rightarrow> []) False w))"
  by (auto simp: dispatch_def Let_def split: prod.split)

lemma error_status_contains:
  "case message err of
     Some msg \<Rightarrow> sublist (''Error: '' @ msg) (error_status err)
   | None \<Rightarrow> sublist (''Error: '' @ as_text err) (error_status err)"
proof (cases "message err")
  case None
  then have "error_text err = as_text err" by (simp add: error_text_def)
  moreover have "sublist (''Error: '' @ as_text err)
      ([CHR 0x0A] @ (''Error: '' @ as_text err) @ [CHR 0x0A])" by (rule sublist_appendI)
  ultimately show ?thesis using None by (simp add: error_status_def)
next
  case (Some msg)
  show ?thesis
  proof (cases "msg = []")
    case True
    have "sublist ''Error: '' ([CHR 0x0A] @ ''Error: '' @ (error_text err @ [CHR 0x0A]))"
      by (rule sublist_appendI)
    with True Some show ?thesis by (simp add: error_status_def)
  next
    case False
    with Some have "error_text err = msg" by (simp add: error_text_def)
    moreover have "sublist (''Error: '' @ msg) ([CHR 0x0A] @ (''Error: '' @ msg) @ [CHR 0x0A])"
      by (rule sublist_appendI)
    ultimately show ?thesis using Some by (simp add: error_status_def)
  qed
qed

lemma trim_Nil_iff: "trim s = [] \<longleftrightarrow> (\<forall>x\<in>set s. is_space x)"
proof
  assume "trim s = []"
  then have "dropWhile is_space (rev (dropWhile is_space s)) = []" by (simp add: trim_def)
  then have "\<forall>x\<in>set (dropWhile is_space s). is_space x" by (simp add: dropWhile_eq_Nil_conv)
  then have "dropWhile is_space s = []"
    by (metis hd_dropWhile list.set_sel(1))
  then show "\<forall>x\<in>set s. is_space x" by (simp add: dropWhile_eq_Nil_conv)
next
  assume "\<forall>x\<in>set s. is_space x"
  then have ds: "dropWhile is_space s = []" by (simp only: dropWhile_eq_Nil_conv)
  show "trim s = []" unfolding trim_def ds by simp
qed

lemma trim_decomp:
  "\<exists>a b. s = a @ trim s @ b \<and> (\<forall>x\<in>set a. is_space x) \<and> (\<forall>x\<in>set b. is_space x)
     \<and> (trim s = [] \<or> (\<not> is_space (hd (trim s)) \<and> \<not> is_space (last (trim s))))"
proof -
  define d where "d = dropWhile is_space s"
  define a where "a = takeWhile is_space s"
  define b where "b = rev (takeWhile is_space (rev d))"
  have t: "trim s = rev (dropWhile is_space (rev d))" by (simp add: trim_def d_def)
  have "rev (takeWhile is_space (rev d) @ dropWhile is_space (rev d)) = rev (rev d)"
    by (simp only: takeWhile_dropWhile_id)
  then have "rev (dropWhile is_space (rev d)) @ rev (takeWhile is_space (rev d)) = d"
    by (simp only: rev_append rev_rev_ident)
  then have d: "d = trim s @ b" by (simp only: t b_def)
  have "s = a @ d" unfolding a_def d_def by simp
  with d have s: "s = a @ trim s @ b" by simp
  have sa: "\<forall>x\<in>set a. is_space x" unfolding a_def by (metis set_takeWhileD)
  have sb: "\<forall>x\<in>set b. is_space x" unfolding b_def by (metis set_rev set_takeWhileD)
  have ends: "\<not> is_space (hd (trim s)) \<and> \<not> is_space (last (trim s))" if ne: "trim s \<noteq> []"
  proof
    from ne d have "d \<noteq> []" by auto
    then have "\<not> is_space (hd d)" unfolding d_def by (rule hd_dropWhile)
    moreover from ne d have "hd d = hd (trim s)" by (metis hd_append2)
    ultimately show "\<not> is_space (hd (trim s))" by simp
    from ne t have "dropWhile is_space (rev d) \<noteq> []" by simp
    then have "\<not> is_space (hd (dropWhile is_space (rev d)))" by (rule hd_dropWhile)
    moreover have "last (trim s) = hd (dropWhile is_space (rev d))"
      unfolding t by (simp add: last_rev)
    ultimately show "\<not> is_space (last (trim s))" by simp
  qed
  from s sa sb ends show ?thesis by blast
qed

lemma processLoop_confirmation:
  "CallTool fp cnt cf \<in> set (fst (processLoop callTool format chunk buffer w)) \<Longrightarrow> cf = False"
proof (induction callTool format chunk buffer w rule: processLoop.induct)
  case (1 callTool format chunk buffer w)
  show ?case
  proof (cases "findCompleteBlock buffer")
    case None
    with "1.prems" show ?thesis by (simp add: processLoop_None)
  next
    case (Some be)
    obtain block endIdx where be: "(block, endIdx) = be" by (cases be) auto
    then have fcb: "findCompleteBlock buffer = Some (block, endIdx)" using Some by simp
    show ?thesis
    proof (cases "filePath block")
      case None
      from "1.IH"(1)[OF Some be None] "1.prems" show ?thesis
        by (simp add: processLoop_skip[OF fcb disjI1[OF None]])
    next
      case (Some fp')
      show ?thesis
      proof (cases "fp' = []")
        case True
        have e: "filePath block = None \<or> filePath block = Some []" using Some True by simp
        from "1.IH"(2)[OF \<open>findCompleteBlock buffer = Some be\<close> be Some True] "1.prems"
        show ?thesis by (simp add: processLoop_skip[OF fcb e])
      next
        case False
        obtain evs w' where d: "(evs, w') = dispatch callTool format chunk fp' (fileContent block) w"
          by (cases "dispatch callTool format chunk fp' (fileContent block) w") auto
        obtain evs' buffer' w'' where
          r: "processLoop callTool format chunk (substring buffer endIdx) w' = (evs', buffer', w'')"
          by (cases "processLoop callTool format chunk (substring buffer endIdx) w'")
        from dispatch_shape[of callTool format chunk fp' "fileContent block" w] d
        obtain st where evs: "evs = [CallTool fp' (case fileContent block of Some c \<Rightarrow> c | None \<Rightarrow> []) False,
             YieldStatus (chunk\<lparr>content := Text st\<rparr>)]" by (metis fst_conv)
        from "1.prems" have "CallTool fp cnt cf \<in> set (evs @ evs')"
          by (simp add: processLoop_dispatch[OF fcb Some False] d[symmetric] r)
        then have "cf = False \<or> CallTool fp cnt cf \<in> set evs'" using evs by auto
        with "1.IH"(3)[OF \<open>findCompleteBlock buffer = Some be\<close> be Some False d] r
        show ?thesis by auto
      qed
    qed
  qed
qed

lemma processChunk_confirmation:
  "CallTool fp cnt cf \<in> set (fst (processChunk callTool format chunk buffer w)) \<Longrightarrow> cf = False"
proof -
  assume a: "CallTool fp cnt cf \<in> set (fst (processChunk callTool format chunk buffer w))"
  define b1 where "b1 = (if chunkContent chunk \<noteq> [] then buffer @ chunkContent chunk else buffer)"
  from a have "CallTool fp cnt cf \<in> set (fst (processLoop callTool format chunk b1 w))"
    by (cases "processLoop callTool format chunk b1 w")
       (simp add: processChunk_def Let_def b1_def[symmetric])
  then show ?thesis by (rule processLoop_confirmation)
qed

lemma processStream_confirmation:
  "CallTool fp cnt cf \<in> set (fst (processStream callTool format chunks buffer w)) \<Longrightarrow> cf = False"
proof (induction chunks arbitrary: buffer w)
  case Nil
  then show ?case by simp
next
  case (Cons chunk chunks)
  obtain evs buffer' w' where p: "processChunk callTool format chunk buffer w = (evs, buffer', w')"
    by (cases "processChunk callTool format chunk buffer w")
  obtain evs' buffer'' w'' where
    r: "processStream callTool format chunks buffer' w' = (evs', buffer'', w'')"
    by (cases "processStream callTool format chunks buffer' w'")
  from Cons.prems p r have "CallTool fp cnt cf \<in> set evs \<or> CallTool fp cnt cf \<in> set evs'"
    by simp
  then show ?case
  proof
    assume "CallTool fp cnt cf \<in> set evs"
    with p processChunk_confirmation[of fp cnt cf callTool format chunk buffer w]
    show ?thesis by simp
  next
    assume "CallTool fp cnt cf \<in> set evs'"
    with r Cons.IH[of buffer' w'] show ?thesis by simp
  qed
qed

subsection \<open>A stream without a closing tag, and one block in fragments\<close>

lemma dispatch_outcome_append:
  "dispatch_outcome (evs @ evs') = dispatch_outcome evs @ dispatch_outcome evs'"
  by (induction evs rule: dispatch_outcome.induct) simp_all

lemma dispatch_outcome_Yields: "dispatch_outcome (map Yield cs) = []"
  by (induction cs) simp_all

lemma index_of_prefix_None:
  assumes "index_of t (u @ v) = None"
  shows "index_of t u = None"
proof (cases "index_of t u")
  case None
  then show ?thesis .
next
  case (Some n)
  from index_of_split[OF Some] have "u @ v = take n u @ t @ (drop (n + length t) u @ v)"
    by (metis append_assoc)
  from index_of_occurrence[OF this] assms show ?thesis by simp
qed

lemma processChunk_no_close:
  assumes "index_of close_tag (buffer @ chunkContent chunk) = None"
  shows "processChunk callTool format chunk buffer w
       = ([Yield chunk], buffer @ chunkContent chunk, w)"
proof -
  have "(if chunkContent chunk \<noteq> [] then buffer @ chunkContent chunk else buffer)
      = buffer @ chunkContent chunk" by simp
  then show ?thesis
    unfolding processChunk_def Let_def
    by (simp add: processLoop_None[OF findCompleteBlock_no_close[OF assms]])
qed

lemma processStream_no_close:
  "index_of close_tag (buffer @ concat (map chunkContent chunks)) = None \<Longrightarrow>
   processStream callTool format chunks buffer w
     = (map Yield chunks, buffer @ concat (map chunkContent chunks), w)"
proof (induction chunks arbitrary: buffer)
  case Nil
  then show ?case by simp
next
  case (Cons chunk chunks)
  from Cons.prems
  have a: "index_of close_tag ((buffer @ chunkContent chunk) @ concat (map chunkContent chunks)) = None"
    by simp
  from index_of_prefix_None[OF a]
  have "processChunk callTool format chunk buffer w
       = ([Yield chunk], buffer @ chunkContent chunk, w)" by (rule processChunk_no_close)
  with Cons.IH[OF a] show ?case by simp
qed

lemma block_prefix_no_close:
  assumes "closes_at_end body" and "p @ q = block_of body" and "q \<noteq> []"
  shows "index_of close_tag p = None"
proof (cases "index_of close_tag p")
  case None
  then show ?thesis .
next
  case (Some n)
  from index_of_split[OF Some]
  have p: "p = take n p @ close_tag @ drop (n + length close_tag) p" .
  then have "block_of body = take n p @ close_tag @ (drop (n + length close_tag) p @ q)"
    using assms(2) by (metis append_assoc)
  from index_of_occurrence[OF this] assms(1)
  have 1: "length open_tag + length body \<le> length (take n p)" by (simp add: closes_at_end_def)
  from p have "length p = length (take n p @ close_tag @ drop (n + length close_tag) p)"
    by simp
  then have 2: "length (take n p) + length close_tag \<le> length p" by simp
  from assms(2,3) have "length p < length (block_of body)"
    by (metis length_append length_greater_0_conv less_add_same_cancel1)
  with 1 2 have False by (simp add: block_of_def min_def split: if_splits)
  then show ?thesis ..
qed

lemma dispatch_outcome_dispatch:
  "dispatch_outcome (fst (dispatch callTool format chunk fp fc w)) =
     [Inl (fp, (case fc of Some c \<Rightarrow> c | None \<Rightarrow> []), False),
      Inr (Text (case (case fst (callTool fp (case fc of Some c \<Rightarrow> c | None \<Rightarrow> []) False w) of
                         Inl err \<Rightarrow> Inl err | Inr result \<Rightarrow> format result) of
                   Inr text \<Rightarrow> result_status text
                 | Inl err \<Rightarrow> error_status err))]
   \<and> snd (dispatch callTool format chunk fp fc w)
     = snd (callTool fp (case fc of Some c \<Rightarrow> c | None \<Rightarrow> []) False w)"
  by (simp add: dispatch_def Let_def split: prod.split)

lemma substring_all: "substring s (int (length s)) = []"
  by (simp add: substring_def)

lemma processLoop_block:
  assumes "closes_at_end body"
  shows "processLoop callTool format chunk (block_of body) w =
     (case filePath (block_of body) of
        None \<Rightarrow> ([], [], w)
      | Some fp \<Rightarrow>
          if fp = [] then ([], [], w)
          else (fst (dispatch callTool format chunk fp (fileContent (block_of body)) w), [],
                snd (dispatch callTool format chunk fp (fileContent (block_of body)) w)))"
proof -
  note fcb = findCompleteBlock_block[OF assms]
  have e: "processLoop callTool format chunk [] w' = ([], [], w')" for w'
    by (rule processLoop_None) (rule findCompleteBlock_Nil)
  show ?thesis
  proof (cases "filePath (block_of body)")
    case None
    from processLoop_skip[OF fcb disjI1[OF None], of callTool format chunk w] show ?thesis
      unfolding substring_all e by (simp add: None)
  next
    case (Some fp)
    show ?thesis
    proof (cases "fp = []")
      case True
      then have "filePath (block_of body) = None \<or> filePath (block_of body) = Some []"
        using Some by simp
      from processLoop_skip[OF fcb this, of callTool format chunk w] show ?thesis
        unfolding substring_all e by (simp add: Some True)
    next
      case False
      from processLoop_dispatch[OF fcb Some False, of callTool format chunk w] show ?thesis
        unfolding substring_all e by (simp add: Some False split: prod.split)
    qed
  qed
qed

lemma processLoop_block_outcome:
  assumes "closes_at_end body"
  shows "dispatch_outcome (fst (processLoop callTool format chunk (block_of body) w))
       = dispatch_outcome (fst (processLoop callTool format chunk' (block_of body) w))
     \<and> snd (processLoop callTool format chunk (block_of body) w)
       = snd (processLoop callTool format chunk' (block_of body) w)"
  by (simp add: processLoop_block[OF assms] dispatch_outcome_dispatch split: option.split)

lemma processStream_block:
  assumes "closes_at_end body"
  shows "buffer @ concat (map chunkContent chunks) = block_of body \<Longrightarrow> buffer \<noteq> block_of body \<Longrightarrow>
     dispatch_outcome (fst (processStream callTool format chunks buffer w))
       = dispatch_outcome (fst (processLoop callTool format chunk' (block_of body) w))
     \<and> snd (processStream callTool format chunks buffer w)
       = snd (processLoop callTool format chunk' (block_of body) w)"
proof (induction chunks arbitrary: buffer)
  case Nil
  then show ?case by simp
next
  case (Cons chunk chunks)
  let ?b1 = "buffer @ chunkContent chunk"
  from Cons.prems(1) have tot: "?b1 @ concat (map chunkContent chunks) = block_of body" by simp
  show ?case
  proof (cases "?b1 = block_of body")
    case False
    have "concat (map chunkContent chunks) \<noteq> []"
    proof
      assume c: "concat (map chunkContent chunks) = []"
      from tot[unfolded c] have "?b1 = block_of body" by (simp only: append_Nil2)
      with False show False by contradiction
    qed
    from block_prefix_no_close[OF assms tot this]
    have "processChunk callTool format chunk buffer w = ([Yield chunk], ?b1, w)"
      by (rule processChunk_no_close)
    with Cons.IH[OF tot False] show ?thesis
      by (cases "processStream callTool format chunks ?b1 w") simp
  next
    case True
    with tot have r: "concat (map chunkContent chunks) = []" by simp
    obtain evs w' where l: "processLoop callTool format chunk (block_of body) w = (evs, [], w')"
      by (cases "processLoop callTool format chunk (block_of body) w")
         (auto simp: processLoop_block[OF assms] split: option.splits if_splits)
    have "(if chunkContent chunk \<noteq> [] then buffer @ chunkContent chunk else buffer) = ?b1"
      by simp
    then have pc: "processChunk callTool format chunk buffer w = (Yield chunk # evs, [], w')"
      unfolding processChunk_def Let_def by (simp add: True l)
    have "index_of close_tag ([] @ concat (map chunkContent chunks)) = None"
      by (simp add: r close_tag_def)
    from processStream_no_close[OF this]
    have ps: "processStream callTool format chunks [] w' = (map Yield chunks, [], w')"
      by (simp add: r)
    have "processStream callTool format (chunk # chunks) buffer w
        = (Yield chunk # evs @ map Yield chunks, [], w')"
      by (simp add: pc ps)
    then show ?thesis
      using processLoop_block_outcome[OF assms, of callTool format chunk w chunk'] l
      by (simp add: dispatch_outcome_append dispatch_outcome_Yields)
  qed
qed

lemma processLoop_same_block:
  assumes "findCompleteBlock buffer = Some (block, endIdx)"
    and "findCompleteBlock buffer' = Some (block, endIdx')"
    and "substring buffer endIdx = substring buffer' endIdx'"
  shows "processLoop callTool format chunk buffer w = processLoop callTool format chunk buffer' w"
  unfolding processLoop.simps[of callTool format chunk buffer w]
    processLoop.simps[of callTool format chunk buffer' w] assms(1,2) option.case prod.case
    assms(3) ..

subsection \<open>What the loop can cut off the buffer\<close>

lemma processLoop_buffer_induct:
  assumes base: "\<And>buf. findCompleteBlock buf = None \<Longrightarrow> P buf buf"
    and step: "\<And>buf block endIdx r. findCompleteBlock buf = Some (block, endIdx) \<Longrightarrow>
                 P (substring buf endIdx) r \<Longrightarrow> P buf r"
  shows "P buffer (fst (snd (processLoop callTool format chunk buffer w)))"
proof (induction callTool format chunk buffer w rule: processLoop.induct)
  case (1 callTool format chunk buffer w)
  show ?case
  proof (cases "findCompleteBlock buffer")
    case None
    then show ?thesis by (simp add: processLoop_None base)
  next
    case (Some be)
    obtain block endIdx where be: "(block, endIdx) = be" by (cases be) auto
    then have fcb: "findCompleteBlock buffer = Some (block, endIdx)" using Some by simp
    show ?thesis
    proof (cases "filePath block")
      case None
      from "1.IH"(1)[OF Some be None] show ?thesis
        by (simp add: processLoop_skip[OF fcb disjI1[OF None]] step[OF fcb])
    next
      case (Some fp)
      show ?thesis
      proof (cases "fp = []")
        case True
        have e: "filePath block = None \<or> filePath block = Some []" using Some True by simp
        from "1.IH"(2)[OF \<open>findCompleteBlock buffer = Some be\<close> be Some True] show ?thesis
          by (simp add: processLoop_skip[OF fcb e] step[OF fcb])
      next
        case False
        obtain evs w' where d: "(evs, w') = dispatch callTool format chunk fp (fileContent block) w"
          by (cases "dispatch callTool format chunk fp (fileContent block) w") auto
        obtain evs' buffer' w'' where
          r: "processLoop callTool format chunk (substring buffer endIdx) w' = (evs', buffer', w'')"
          by (cases "processLoop callTool format chunk (substring buffer endIdx) w'")
        from "1.IH"(3)[OF \<open>findCompleteBlock buffer = Some be\<close> be Some False d]
        show ?thesis
          by (simp add: processLoop_dispatch[OF fcb Some False] d[symmetric] r step[OF fcb])
      qed
    qed
  qed
qed

lemma search_from_Bol_later:
  "search_from (Seq Bol r) (Suc i) s = None"
  by (induction s arbitrary: i) simp_all

lemma search_from_Bol_index:
  assumes "search_from (Seq Bol r) 0 s = Some (j, st)"
  shows "j = 0"
proof (cases s)
  case Nil
  with assms show ?thesis by auto
next
  case (Cons x xs)
  with assms show ?thesis
    by (cases "m (Seq Bol r) Some (0, x # xs, None)") (simp_all add: search_from_Bol_later)
qed

lemma trailing_fence_whole:
  assumes "js_match trailing_fence_re s = Some fm"
  shows "\<exists>ws. whole fm = ws @ fence \<and> (\<forall>x\<in>set ws. is_space x) \<and> prefix (ws @ fence) s"
proof -
  from assms obtain j e s' g where
    sf: "search_from trailing_fence_re 0 s = Some (j, (e, s', g))"
    and fm: "whole fm = take (e - j) (drop j s)"
    by (auto simp: js_match_def split: option.splits)
  from search_from_Bol_index[OF sf[unfolded trailing_fence_re_def]] have j: "j = 0" .
  from search_from_sound[OF sf] j obtain w where
    s: "s = w @ s'" and e: "e = length w" and w: "w \<in> lang trailing_fence_re" by auto
  from w obtain ws where ws: "w = ws @ fence" "\<forall>x\<in>set ws. is_space x"
    by (auto simp: trailing_fence_re_def)
  from fm j e s have "whole fm = w" by simp
  with ws s show ?thesis by auto
qed

lemma findCompleteBlock_endIdx:
  assumes "findCompleteBlock buf = Some (block, endIdx)"
  shows "\<exists>n. index_of close_tag buf = Some n \<and>
           (endIdx = int (n + length close_tag) \<or>
            (\<exists>ws. endIdx = int (n + length close_tag + length (ws @ fence))
                 \<and> (\<forall>x\<in>set ws. is_space x)
                 \<and> prefix (ws @ fence) (drop (n + length close_tag) buf)))"
proof -
  from assms findCompleteBlock_no_close[of buf] obtain n where
    n: "index_of close_tag buf = Some n" by (cases "index_of close_tag buf") auto
  then have io: "indexOf buf close_tag + int (length close_tag) = int (n + length close_tag)"
    by (simp add: indexOf_def)
  let ?after = "drop (n + length close_tag) buf"
  have sub: "substring buf (int (n + length close_tag)) = ?after"
    by (simp only: substring_def nat_int)
  from assms have e: "endIdx = int (n + length close_tag) +
      (case js_match trailing_fence_re ?after of
         Some fm \<Rightarrow> int (length (whole fm)) | None \<Rightarrow> 0)"
    unfolding findCompleteBlock_def Let_def io sub by (auto split: option.splits)
  show ?thesis
  proof (cases "js_match trailing_fence_re ?after")
    case None
    with e n show ?thesis by simp
  next
    case (Some fm)
    from trailing_fence_whole[OF Some] obtain ws where
      "whole fm = ws @ fence" "\<forall>x\<in>set ws. is_space x" "prefix (ws @ fence) ?after" by blast
    with e n Some show ?thesis by auto
  qed
qed

lemma prefix_nth:
  assumes "prefix t s" and "k < length t"
  shows "s ! k = t ! k"
  using assms by (auto simp: prefix_def nth_append)

lemma close_tag_inner: "1 \<le> k \<Longrightarrow> k < length close_tag \<Longrightarrow> close_tag ! k \<noteq> CHR ''<''"
proof -
  assume k: "1 \<le> k" "k < length close_tag"
  then have "close_tag ! k = tl close_tag ! (k - 1)" by (simp add: nth_tl)
  moreover from k have "k - 1 < length (tl close_tag)" by simp
  ultimately have "close_tag ! k \<in> set (tl close_tag)" by (metis nth_mem)
  moreover have "CHR ''<'' \<notin> set (tl close_tag)" by (simp add: close_tag_def)
  ultimately show ?thesis by metis
qed

text \<open>A closing tag cannot start before a \<open><\<close> and end after it.\<close>

lemma close_tag_no_straddle:
  assumes v: "v = [] \<or> hd v = CHR ''<''"
    and nv: "index_of close_tag v = None"
    and n: "index_of close_tag (a @ v) = Some n"
  shows "n + length close_tag \<le> length a"
proof (rule ccontr)
  assume c: "\<not> n + length close_tag \<le> length a"
  from n have p: "prefix close_tag (drop n (a @ v))" and nl: "n \<le> length (a @ v)"
    by (simp_all add: index_of_Some_iff)
  show False
  proof (cases "length a \<le> n")
    case True
    then have "drop n (a @ v) = drop (n - length a) v" by simp
    moreover from True nl have "n - length a \<le> length v" by simp
    ultimately show False using p nv by (simp add: index_of_None_iff)
  next
    case False
    define k where "k = length a - n"
    from False c have k: "1 \<le> k" "k < length close_tag" by (simp_all add: k_def)
    from False have d: "drop n (a @ v) = drop n a @ v" and lk: "length (drop n a) = k"
      by (simp_all add: k_def)
    from p k have "length close_tag \<le> length (drop n a @ v)"
      using d prefix_length_le by metis
    with k lk have "v \<noteq> []" by auto
    with v have hv: "hd v = CHR ''<''" by simp
    from prefix_nth[OF p k(2)] have "(drop n a @ v) ! k = close_tag ! k" by (simp only: d)
    moreover have "(drop n a @ v) ! k = hd v"
      using lk \<open>v \<noteq> []\<close> by (simp add: nth_append hd_conv_nth)
    ultimately show False using close_tag_inner[OF k] hv by simp
  qed
qed

text \<open>The trailing fence pattern cannot reach over a \<open><\<close>.\<close>

lemma fence_stops_at_lt:
  assumes "prefix (ws @ fence) (x @ v)" and "\<forall>c\<in>set ws. is_space c"
    and "v \<noteq> []" and "hd v = CHR ''<''"
  shows "length (ws @ fence) \<le> length x"
proof (rule ccontr)
  assume "\<not> length (ws @ fence) \<le> length x"
  then have k: "length x < length (ws @ fence)" by simp
  from prefix_nth[OF assms(1) k] have "(ws @ fence) ! length x = hd v"
    using assms(3) by (simp add: nth_append hd_conv_nth)
  with k have "CHR ''<'' \<in> set (ws @ fence)" using assms(4) by (metis nth_mem)
  then show False using assms(2) not_space_lt by (auto simp: fence_def)
qed

lemma findCompleteBlock_keeps_tail:
  assumes fcb: "findCompleteBlock (a @ v) = Some (block, endIdx)"
    and v: "v = [] \<or> hd v = CHR ''<''"
    and nv: "index_of close_tag v = None"
  shows "\<exists>d\<le>length a. substring (a @ v) endIdx = drop d a @ v"
proof (cases "v = []")
  case True
  have "substring a endIdx = drop (min (nat endIdx) (length a)) a"
    by (simp add: substring_def min_def)
  with True show ?thesis by (metis append_Nil2 min.cobounded2)
next
  case False
  with v have hv: "hd v = CHR ''<''" by simp
  from findCompleteBlock_endIdx[OF fcb] obtain n where
    n: "index_of close_tag (a @ v) = Some n"
    and e: "endIdx = int (n + length close_tag) \<or>
            (\<exists>ws. endIdx = int (n + length close_tag + length (ws @ fence))
                 \<and> (\<forall>x\<in>set ws. is_space x)
                 \<and> prefix (ws @ fence) (drop (n + length close_tag) (a @ v)))" by blast
  from close_tag_no_straddle[OF v nv n] have b: "n + length close_tag \<le> length a" .
  have "nat endIdx \<le> length a"
  proof -
    from e show ?thesis
    proof
      assume "endIdx = int (n + length close_tag)"
      with b show ?thesis by simp
    next
      assume "\<exists>ws. endIdx = int (n + length close_tag + length (ws @ fence))
                 \<and> (\<forall>x\<in>set ws. is_space x)
                 \<and> prefix (ws @ fence) (drop (n + length close_tag) (a @ v))"
      then obtain ws where ws: "endIdx = int (n + length close_tag + length (ws @ fence))"
        "\<forall>x\<in>set ws. is_space x"
        "prefix (ws @ fence) (drop (n + length close_tag) (a @ v))" by blast
      from b have "drop (n + length close_tag) (a @ v) = drop (n + length close_tag) a @ v"
        by simp
      with ws(3) have "prefix (ws @ fence) (drop (n + length close_tag) a @ v)" by simp
      from fence_stops_at_lt[OF this ws(2) False hv]
      have "length (ws @ fence) \<le> length a - (n + length close_tag)" by simp
      with b ws(1) show ?thesis by simp
    qed
  qed
  then have "substring (a @ v) endIdx = drop (nat endIdx) a @ v"
    by (simp add: substring_def)
  with \<open>nat endIdx \<le> length a\<close> show ?thesis by blast
qed

lemma processLoop_keeps_tail:
  assumes v: "v = [] \<or> hd v = CHR ''<''" and nv: "index_of close_tag v = None"
  shows "\<exists>d\<le>length a. fst (snd (processLoop callTool format chunk (a @ v) w)) = drop d a @ v"
proof -
  define P where "P = (\<lambda>buf r. \<forall>a. buf = a @ v \<longrightarrow> (\<exists>d\<le>length a. r = drop d a @ v))"
  have "P (a @ v) (fst (snd (processLoop callTool format chunk (a @ v) w)))"
  proof (rule processLoop_buffer_induct)
    fix buf :: string
    show "P buf buf" unfolding P_def
    proof (intro allI impI)
      fix a assume "buf = a @ v"
      then have "buf = drop 0 a @ v" by simp
      then show "\<exists>d\<le>length a. buf = drop d a @ v" by blast
    qed
  next
    fix buf block endIdx r
    assume fcb: "findCompleteBlock buf = Some (block, endIdx)" and ih: "P (substring buf endIdx) r"
    show "P buf r" unfolding P_def
    proof (intro allI impI)
      fix a assume buf: "buf = a @ v"
      from findCompleteBlock_keeps_tail[OF fcb[unfolded buf] v nv] obtain d where
        d: "d \<le> length a" "substring (a @ v) endIdx = drop d a @ v" by blast
      from ih[unfolded P_def] buf d(2) obtain d' where
        d': "d' \<le> length (drop d a)" "r = drop d' (drop d a) @ v" by auto
      from d d' have "d' + d \<le> length a" "r = drop (d' + d) a @ v" by simp_all
      then show "\<exists>d\<le>length a. r = drop d a @ v" by blast
    qed
  qed
  then show ?thesis unfolding P_def by blast
qed

lemma processStream_keeps_tail:
  assumes u: "u \<noteq> []" "hd u = CHR ''<''" and nu: "index_of close_tag u = None"
  shows "buffer @ concat (map chunkContent chunks) = a @ u \<Longrightarrow>
         suffix u (fst (snd (processStream callTool format chunks buffer w)))"
proof (induction chunks arbitrary: buffer a w)
  case Nil
  then show ?case by (simp add: suffix_def)
next
  case (Cons chunk chunks)
  let ?b1 = "buffer @ chunkContent chunk"
  let ?rest = "concat (map chunkContent chunks)"
  obtain evs buffer' w' where l: "processLoop callTool format chunk ?b1 w = (evs, buffer', w')"
    by (cases "processLoop callTool format chunk ?b1 w")
  have "(if chunkContent chunk \<noteq> [] then buffer @ chunkContent chunk else buffer) = ?b1"
    by simp
  then have pc: "processChunk callTool format chunk buffer w = (Yield chunk # evs, buffer', w')"
    unfolding processChunk_def Let_def by (simp add: l)
  from Cons.prems have tot: "?b1 @ ?rest = a @ u" by simp
  have "\<exists>a'. buffer' @ ?rest = a' @ u"
  proof -
    from tot obtain us where "(?b1 = a @ us \<and> us @ ?rest = u) \<or> (?b1 @ us = a \<and> ?rest = us @ u)"
      unfolding append_eq_append_conv2 by blast
    then show ?thesis
    proof
      assume c: "?b1 = a @ us \<and> us @ ?rest = u"
      then have "index_of close_tag (us @ ?rest) = None" using nu by simp
      then have nus: "index_of close_tag us = None" by (rule index_of_prefix_None)
      from c u have hus: "us = [] \<or> hd us = CHR ''<''" by (cases us) auto
      from processLoop_keeps_tail[OF hus nus, of a callTool format chunk w] c l
      obtain d where "buffer' = drop d a @ us" by auto
      with c have "buffer' @ ?rest = drop d a @ u" by simp
      then show ?thesis by blast
    next
      assume c: "?b1 @ us = a \<and> ?rest = us @ u"
      have "index_of close_tag [] = None" by (simp add: close_tag_def)
      from processLoop_keeps_tail[OF disjI1[OF refl] this, of ?b1 callTool format chunk w] l
      obtain d where "buffer' = drop d ?b1" by auto
      with c have "buffer' @ ?rest = (drop d ?b1 @ us) @ u" by simp
      then show ?thesis by blast
    qed
  qed
  then obtain a' where "buffer' @ ?rest = a' @ u" by blast
  from Cons.IH[OF this, of w'] show ?case
    by (cases "processStream callTool format chunks buffer' w'") (simp add: pc)
qed

subsection \<open>A block at the first opening tag of the buffer\<close>

lemma prefix_drop_append:
  assumes "prefix p (drop k (t @ r))" and "k + length p \<le> length t"
  shows "prefix p (drop k t)"
proof -
  from assms(2) have "drop k (t @ r) = drop k t @ r" by simp
  with assms(1) have "prefix p (drop k t @ r)" by simp
  moreover from assms(2) have "length p \<le> length (drop k t)" by simp
  ultimately show ?thesis by (auto simp: prefix_append)
qed

lemma lang_fence_re_head: "w \<in> lang fence_re \<Longrightarrow> prefix fence w"
  by (auto simp: fence_re_def)

lemma fence_search_start:
  assumes "search_from fence_re i s = Some (j, st)"
  shows "i \<le> j \<and> prefix fence (drop (j - i) s)"
proof -
  obtain e s' g where st: "st = (e, s', g)" by (cases st) auto
  from search_from_sound[OF assms[unfolded st]] obtain a w where
    s: "s = a @ w @ s'" and j: "j = i + length a" and w: "w \<in> lang fence_re" by blast
  from lang_fence_re_head[OF w] have "prefix fence (w @ s')" by (rule prefix_prefix)
  moreover from s j have "drop (j - i) s = w @ s'" by simp
  ultimately show ?thesis using j by simp
qed

lemma no_fence_inside:
  assumes nf: "index_of fence (t0 @ close_tag) = None"
    and k: "k < length (t0 @ close_tag)"
  shows "\<not> prefix fence (drop k ((t0 @ close_tag) @ rest))"
proof
  let ?t = "t0 @ close_tag"
  assume p: "prefix fence (drop k (?t @ rest))"
  show False
  proof (cases "k + length fence \<le> length ?t")
    case True
    from prefix_drop_append[OF p True] have "prefix fence (drop k ?t)" .
    with nf k show False by (simp add: index_of_None_iff)
  next
    case False
    then have k0: "length t0 \<le> k" by (simp add: fence_def close_tag_def)
    have "0 < length fence" by (simp add: fence_def)
    from prefix_nth[OF p this] have "drop k (?t @ rest) ! 0 = CHR 0x60" by (simp add: fence_def)
    moreover from k have "drop k (?t @ rest) ! 0 = ?t ! k" by (simp add: nth_append)
    moreover from k k0 have "?t ! k = close_tag ! (k - length t0)" by (simp add: nth_append)
    moreover from k k0 have "k - length t0 < length close_tag" by simp
    ultimately have "CHR 0x60 \<in> set close_tag" by (metis nth_mem)
    then show False by (simp add: close_tag_def)
  qed
qed

lemma stripCodeFences_keeps_head:
  assumes "\<forall>k<length t. \<not> prefix fence (drop k (t @ rest))"
  shows "\<exists>X. stripCodeFences (t @ rest) = t @ X"
proof (cases "search_from fence_re 0 (t @ rest)")
  case None
  from stripCodeFences_id[OF None] show ?thesis by blast
next
  case (Some r)
  obtain j e s' g where r: "r = (j, (e, s', g))" by (cases r) auto
  from fence_search_start[OF Some[unfolded r]] have "prefix fence (drop j (t @ rest))" by simp
  with assms have j: "length t \<le> j" by (meson not_le)
  have "\<exists>Y. replace_from fence_re 0 (t @ rest) = take j (t @ rest) @ Y"
    by (subst replace_from.simps) (simp add: Some r)
  then obtain Y where "replace_from fence_re 0 (t @ rest) = take j (t @ rest) @ Y" by blast
  with j have "stripCodeFences (t @ rest) = t @ (take (j - length t) rest @ Y)"
    by (simp add: stripCodeFences_def replace_g1_def)
  then show ?thesis by blast
qed

lemma js_match_block_at:
  assumes cl: "closes_at_end body"
    and io: "index_of open_tag (pre @ block_of body) = Some (length pre)"
  shows "js_match block_re ((pre @ block_of body) @ X)
       = Some \<lparr>index = length pre, whole = block_of body, group1 = None\<rparr>"
proof -
  from index_of_append_Some[OF io, of X]
  have o: "index_of open_tag ((pre @ block_of body) @ X) = Some (length pre)" .
  from cl have "index_of close_tag (block_of body) = Some (length open_tag + length body)"
    by (simp add: closes_at_end_def)
  from index_of_drop_Some[OF index_of_append_Some[OF this, of X]]
  have "index_of close_tag (drop (length open_tag) (block_of body @ X)) = Some (length body)" .
  moreover have "drop (length pre + length open_tag) ((pre @ block_of body) @ X)
      = drop (length open_tag) (block_of body @ X)" by simp
  ultimately have c: "index_of close_tag
      (drop (length pre + length open_tag) ((pre @ block_of body) @ X)) = Some (length body)"
    by simp
  have "take (length open_tag + length body + length close_tag)
      (drop (length pre) ((pre @ block_of body) @ X)) = block_of body"
    by (simp add: block_of_def)
  with o c show ?thesis by (simp add: js_match_block_re)
qed

lemma close_tag_before_lt:
  assumes p: "prefix close_tag (drop n (a @ v))" and n: "n < length a"
    and v: "v \<noteq> []" "hd v = CHR ''<''"
  shows "n + length close_tag \<le> length a"
proof (rule ccontr)
  assume c: "\<not> n + length close_tag \<le> length a"
  define k where "k = length a - n"
  from n c have k: "1 \<le> k" "k < length close_tag" by (simp_all add: k_def)
  from n have d: "drop n (a @ v) = drop n a @ v" and lk: "length (drop n a) = k"
    by (simp_all add: k_def)
  from prefix_nth[OF p k(2)] have "(drop n a @ v) ! k = close_tag ! k" by (simp only: d)
  moreover have "(drop n a @ v) ! k = hd v"
    using lk v(1) by (simp add: nth_append hd_conv_nth)
  ultimately show False using close_tag_inner[OF k] v(2) by simp
qed

lemma block_of_starts_lt: "block_of body @ rest \<noteq> [] \<and> hd (block_of body @ rest) = CHR ''<''"
  by (simp add: block_of_def open_tag_def)

lemma first_close_cases:
  assumes cl: "closes_at_end body"
  shows "\<exists>n. index_of close_tag (pre @ block_of body @ rest) = Some n \<and>
           (n + length close_tag \<le> length pre \<or> n = length pre + length open_tag + length body)"
proof -
  have "pre @ block_of body @ rest = (pre @ open_tag @ body) @ close_tag @ rest"
    by (simp add: block_of_def)
  from index_of_occurrence[OF this] obtain n where
    n: "index_of close_tag (pre @ block_of body @ rest) = Some n" by blast
  show ?thesis
  proof (cases "n < length pre")
    case True
    from n have "prefix close_tag (drop n (pre @ block_of body @ rest))"
      by (simp add: index_of_Some_iff)
    from close_tag_before_lt[OF this True] block_of_starts_lt[of body rest]
    have "n + length close_tag \<le> length pre" by blast
    with n show ?thesis by blast
  next
    case False
    then have "n = length pre + (n - length pre)" by simp
    with n have "index_of close_tag (pre @ block_of body @ rest) = Some (length pre + (n - length pre))"
      by simp
    from index_of_drop_Some[OF this]
    have 1: "index_of close_tag (block_of body @ rest) = Some (n - length pre)" by simp
    from cl have "index_of close_tag (block_of body) = Some (length open_tag + length body)"
      by (simp add: closes_at_end_def)
    from index_of_append_Some[OF this, of rest] 1
    have "n - length pre = length open_tag + length body" by simp
    with False have "n = length pre + length open_tag + length body" by simp
    with n show ?thesis by blast
  qed
qed

lemma no_trailing_fence_before_block:
  assumes nf: "index_of fence (pre @ block_of body) = None" and k: "k \<le> length pre"
  shows "js_match trailing_fence_re (drop k pre @ block_of body @ rest) = None"
proof (cases "js_match trailing_fence_re (drop k pre @ block_of body @ rest)")
  case None
  then show ?thesis .
next
  case (Some fm)
  from trailing_fence_whole[OF Some] obtain ws where
    ws: "\<forall>x\<in>set ws. is_space x" "prefix (ws @ fence) (drop k pre @ block_of body @ rest)"
    by blast
  from fence_stops_at_lt[OF ws(2) ws(1)] block_of_starts_lt[of body rest]
  have "length (ws @ fence) \<le> length (drop k pre)" by blast
  with ws(2) have "prefix (ws @ fence) (drop k pre)"
    using prefix_drop_append[where k = 0 and t = "drop k pre" and r = "block_of body @ rest"
        and p = "ws @ fence"] by simp
  then obtain z where "drop k pre = (ws @ fence) @ z" by (auto simp: prefix_def)
  moreover have "pre = take k pre @ drop k pre" by simp
  ultimately have "pre @ block_of body = (take k pre @ ws) @ fence @ (z @ block_of body)"
    by (metis append_assoc)
  from index_of_occurrence[OF this] nf show ?thesis by simp
qed

lemma after_fence_suffix: "suffix (after_fence s) s"
  unfolding after_fence_def by (rule suffix_drop)

lemma after_fence_id:
  assumes "index_of fence s = None"
  shows "after_fence s = s"
proof (cases "js_match trailing_fence_re s")
  case None
  then show ?thesis by (simp add: after_fence_def)
next
  case (Some fm)
  from trailing_fence_whole[OF Some] obtain ws where "prefix (ws @ fence) s" by blast
  then obtain v where "s = ws @ fence @ v" by (auto simp: prefix_def)
  from index_of_occurrence[OF this] assms show ?thesis by simp
qed

lemma findCompleteBlock_first_block:
  assumes cl: "closes_at_end body"
    and io: "index_of open_tag (pre @ block_of body) = Some (length pre)"
    and nf: "index_of fence (pre @ block_of body) = None"
  shows "\<exists>e. findCompleteBlock (pre @ block_of body @ rest) = Some (block_of body, e) \<and>
           (substring (pre @ block_of body @ rest) e = after_fence rest \<or>
            (\<exists>k. 0 < k \<and> k \<le> length pre \<and>
               substring (pre @ block_of body @ rest) e = drop k pre @ block_of body @ rest))"
proof -
  let ?b = "block_of body"
  let ?buf = "pre @ ?b @ rest"
  have t: "pre @ ?b = (pre @ open_tag @ body) @ close_tag" by (simp add: block_of_def)
  have "\<forall>k<length (pre @ ?b). \<not> prefix fence (drop k ((pre @ ?b) @ rest))"
  proof (intro allI impI)
    fix k assume "k < length (pre @ ?b)"
    with no_fence_inside[of "pre @ open_tag @ body" k rest] nf
    show "\<not> prefix fence (drop k ((pre @ ?b) @ rest))" unfolding t by blast
  qed
  from stripCodeFences_keeps_head[OF this] obtain X where
    c: "stripCodeFences ?buf = (pre @ ?b) @ X" by auto
  note jm = js_match_block_at[OF cl io, of X]
  from first_close_cases[OF cl, of pre rest] obtain n where
    n: "index_of close_tag ?buf = Some n"
    and nc: "n + length close_tag \<le> length pre \<or> n = length pre + length open_tag + length body"
    by blast
  define tf where "tf = (case js_match trailing_fence_re (drop (n + length close_tag) ?buf) of
      Some fm \<Rightarrow> length (whole fm) | None \<Rightarrow> 0)"
  have io': "indexOf ?buf close_tag + int (length close_tag) = int (n + length close_tag)"
    by (simp add: indexOf_def n)
  have sub: "substring ?buf (int (n + length close_tag)) = drop (n + length close_tag) ?buf"
    by (simp only: substring_def nat_int)
  have "(case js_match trailing_fence_re (drop (n + length close_tag) ?buf) of
      Some fm \<Rightarrow> int (length (whole fm)) | None \<Rightarrow> 0) = int tf"
    by (simp add: tf_def split: option.split)
  then have f: "findCompleteBlock ?buf = Some (?b, int (n + length close_tag + tf))"
    unfolding findCompleteBlock_def Let_def c jm io' sub by simp
  have s: "substring ?buf (int (n + length close_tag + tf)) = drop (n + length close_tag + tf) ?buf"
    by (simp only: substring_def nat_int)
  from nc show ?thesis
  proof
    assume a: "n + length close_tag \<le> length pre"
    then have "drop (n + length close_tag) ?buf = drop (n + length close_tag) pre @ ?b @ rest"
      by simp
    with no_trailing_fence_before_block[OF nf a, of rest] have "tf = 0" by (simp add: tf_def)
    with a s have "substring ?buf (int (n + length close_tag + tf))
        = drop (n + length close_tag) pre @ ?b @ rest" by simp
    moreover have "0 < n + length close_tag" by (simp add: close_tag_def)
    ultimately show ?thesis using f a by blast
  next
    assume a: "n = length pre + length open_tag + length body"
    then have l: "n + length close_tag = length (pre @ ?b)" by (simp add: block_of_def)
    have d: "drop (length (pre @ ?b) + j) ((pre @ ?b) @ rest) = drop j rest" for j
      by (simp only: drop_append) simp
    from d[of 0] have "drop (n + length close_tag) ?buf = rest" by (simp add: l)
    then have "tf = (case js_match trailing_fence_re rest of
        Some fm \<Rightarrow> length (whole fm) | None \<Rightarrow> 0)" by (simp add: tf_def)
    then have "drop tf rest = after_fence rest" by (simp add: after_fence_def)
    with d[of tf] s have "substring ?buf (int (n + length close_tag + tf)) = after_fence rest"
      by (simp add: l)
    with f show ?thesis by blast
  qed
qed

lemma processLoop_pathless_first_block:
  assumes cl: "closes_at_end body" and np: "filePath (block_of body) = None"
  shows "index_of open_tag (pre @ block_of body) = Some (length pre) \<Longrightarrow>
         index_of fence (pre @ block_of body) = None \<Longrightarrow>
         processLoop callTool format chunk (pre @ block_of body @ rest) w
           = processLoop callTool format chunk (after_fence rest) w"
proof (induction "length pre" arbitrary: pre rule: less_induct)
  case less
  let ?buf = "pre @ block_of body @ rest"
  from findCompleteBlock_first_block[OF cl less.prems, of rest] obtain e where
    f: "findCompleteBlock ?buf = Some (block_of body, e)"
    and d: "substring ?buf e = after_fence rest \<or>
            (\<exists>k. 0 < k \<and> k \<le> length pre \<and> substring ?buf e = drop k pre @ block_of body @ rest)"
    by blast
  note step = processLoop_skip[OF f disjI1[OF np], of callTool format chunk w]
  from d show ?case
  proof
    assume "substring ?buf e = after_fence rest"
    with step show ?thesis by simp
  next
    assume "\<exists>k. 0 < k \<and> k \<le> length pre \<and> substring ?buf e = drop k pre @ block_of body @ rest"
    then obtain k where k: "0 < k" "k \<le> length pre"
      and s: "substring ?buf e = drop k pre @ block_of body @ rest" by blast
    from k have sh: "length (drop k pre) < length pre" by simp
    from k have dk: "drop k (pre @ block_of body) = drop k pre @ block_of body" by simp
    from k less.prems(1)
    have "index_of open_tag (pre @ block_of body) = Some (k + (length pre - k))" by simp
    from index_of_drop_Some[OF this]
    have io': "index_of open_tag (drop k pre @ block_of body) = Some (length (drop k pre))"
      unfolding dk by simp
    from index_of_drop_None[OF less.prems(2), of k]
    have nf': "index_of fence (drop k pre @ block_of body) = None" unfolding dk .
    from less.hyps[OF sh io' nf'] step s show ?thesis by simp
  qed
qed

text \<open>
  One iteration on a block with a path and no content field: one call of the tool, with
  the empty string as content, and its status chunk, then the rest of the buffer. In
  every stream every call of the tool has \<^verbatim>\<open>confirmation: false\<close>.
\<close>

lemma contentless_block_step:
  assumes "findCompleteBlock buffer = Some (block, endIdx)"
    and "filePath block = Some fp" and "fp \<noteq> []"
    and "fileContent block = None"
  shows "(\<exists>st evs buffer' w''.
           processLoop callTool format chunk buffer w =
             (CallTool fp [] False # YieldStatus (chunk\<lparr>content := Text st\<rparr>) # evs, buffer', w'')
         \<and> processLoop callTool format chunk (substring buffer endIdx)
               (snd (callTool fp [] False w)) = (evs, buffer', w''))
       \<and> (\<forall>e\<in>set (fst (processStream callTool format chunks buffer0 w0)).
             case e of CallTool p c cf \<Rightarrow> cf = False | _ \<Rightarrow> True)"
proof
  obtain evs buffer' w'' where
    r: "processLoop callTool format chunk (substring buffer endIdx) (snd (callTool fp [] False w))
        = (evs, buffer', w'')"
    by (cases "processLoop callTool format chunk (substring buffer endIdx) (snd (callTool fp [] False w))")
  from dispatch_shape[of callTool format chunk fp "fileContent block" w] assms(4)
  obtain st where "dispatch callTool format chunk fp (fileContent block) w =
     ([CallTool fp [] False, YieldStatus (chunk\<lparr>content := Text st\<rparr>)],
      snd (callTool fp [] False w))" by auto
  then have "processLoop callTool format chunk buffer w =
       (CallTool fp [] False # YieldStatus (chunk\<lparr>content := Text st\<rparr>) # evs, buffer', w'')"
    using r by (simp add: processLoop_dispatch[OF assms(1-3)])
  with r show "\<exists>st evs buffer' w''.
           processLoop callTool format chunk buffer w =
             (CallTool fp [] False # YieldStatus (chunk\<lparr>content := Text st\<rparr>) # evs, buffer', w'')
         \<and> processLoop callTool format chunk (substring buffer endIdx)
               (snd (callTool fp [] False w)) = (evs, buffer', w'')" by blast
next
  show "\<forall>e\<in>set (fst (processStream callTool format chunks buffer0 w0)).
             case e of CallTool p c cf \<Rightarrow> cf = False | _ \<Rightarrow> True"
  proof
    fix e assume e: "e \<in> set (fst (processStream callTool format chunks buffer0 w0))"
    show "case e of CallTool p c cf \<Rightarrow> cf = False | _ \<Rightarrow> True"
    proof (cases e)
      case (CallTool p c cf)
      with e processStream_confirmation[of p c cf callTool format chunks buffer0 w0]
      show ?thesis by simp
    qed simp_all
  qed
qed

section \<open>Properties\<close>

text \<open>
  C1. Whatever chunk is fed to \<open>processChunk\<close>, whatever the buffer holds and whatever the
  tool does, the first event of the call is the \<^verbatim>\<open>yield\<close> of that very chunk: it is the
  first chunk the consumer sees, before any call of the tool and any status chunk.
\<close>

theorem processChunk_yields_chunk_first:
  "\<exists>evs. fst (processChunk callTool format chunk buffer w) = Yield chunk # evs
     \<and> yielded (fst (processChunk callTool format chunk buffer w)) = chunk # yielded evs"
  by (simp add: processChunk_def Let_def split: prod.split)

text \<open>
  C2. Take the text of one block (the closing tag at its end is the first one in it)
  and cut it into fragments in any way, empty ones included, carried by chunks of any
  shape. Feeding the chunks one after the other to a fresh instance dispatches what
  feeding the whole text in one chunk dispatches: the same calls of the tool with the
  same path and content, the same status text, and the same buffer and world at the
  end. When the block has a path, that is one call and one status chunk.
\<close>

theorem split_boundary:
  assumes "closes_at_end body"
    and "concat (map chunkContent chunks) = block_of body"
    and "chunkContent chunk = block_of body"
  shows "dispatch_outcome (fst (processStream callTool format chunks [] w))
           = dispatch_outcome (fst (processChunk callTool format chunk [] w))
       \<and> snd (processStream callTool format chunks [] w)
           = snd (processChunk callTool format chunk [] w)
       \<and> (case filePath (block_of body) of
            None \<Rightarrow> dispatch_outcome (fst (processChunk callTool format chunk [] w)) = []
          | Some fp \<Rightarrow>
              if fp = [] then dispatch_outcome (fst (processChunk callTool format chunk [] w)) = []
              else \<exists>st. dispatch_outcome (fst (processChunk callTool format chunk [] w)) =
                     [Inl (fp, (case fileContent (block_of body) of Some c \<Rightarrow> c | None \<Rightarrow> []), False),
                      Inr (Text st)])"
proof -
  have ne: "[] \<noteq> block_of body" by (simp add: block_of_def open_tag_def)
  have "(if chunkContent chunk \<noteq> [] then [] @ chunkContent chunk else []) = block_of body"
    using assms(3) ne by simp
  then have pc: "processChunk callTool format chunk [] w =
      (Yield chunk # fst (processLoop callTool format chunk (block_of body) w),
       snd (processLoop callTool format chunk (block_of body) w))"
    unfolding processChunk_def Let_def by (simp split: prod.split)
  from assms(2) have "[] @ concat (map chunkContent chunks) = block_of body" by simp
  from processStream_block[OF assms(1) this ne, of callTool format w chunk]
  have 1: "dispatch_outcome (fst (processStream callTool format chunks [] w))
           = dispatch_outcome (fst (processChunk callTool format chunk [] w))"
    and 2: "snd (processStream callTool format chunks [] w)
           = snd (processChunk callTool format chunk [] w)"
    by (simp_all add: pc)
  have 3: "case filePath (block_of body) of
            None \<Rightarrow> dispatch_outcome (fst (processChunk callTool format chunk [] w)) = []
          | Some fp \<Rightarrow>
              if fp = [] then dispatch_outcome (fst (processChunk callTool format chunk [] w)) = []
              else \<exists>st. dispatch_outcome (fst (processChunk callTool format chunk [] w)) =
                     [Inl (fp, (case fileContent (block_of body) of Some c \<Rightarrow> c | None \<Rightarrow> []), False),
                      Inr (Text st)]"
    by (simp add: pc processLoop_block[OF assms(1)] dispatch_outcome_dispatch split: option.split)
  from 1 2 3 show ?thesis by (intro conjI)
qed

theorem split_boundary_witness:
  "closes_at_end hi_body
   \<and> concat (map chunkContent hi_fragments) = block_of hi_body
   \<and> chunkContent hi_chunk = block_of hi_body
   \<and> dispatch_outcome (fst (processStream example_tool example_format hi_fragments [] []))
       = [Inl (''a.md'', ''hi'', False), Inr (Text (result_status ''wrote a.md''))]
   \<and> dispatch_outcome (fst (processChunk example_tool example_format hi_chunk [] []))
       = [Inl (''a.md'', ''hi'', False), Inr (Text (result_status ''wrote a.md''))]
   \<and> snd (processStream example_tool example_format hi_fragments [] [])
       = ([], [(''a.md'', ''hi'')])"
proof -
  have h1: "closes_at_end hi_body" by code_simp
  have h2: "concat (map chunkContent hi_fragments) = block_of hi_body" by code_simp
  have h3: "chunkContent hi_chunk = block_of hi_body" by code_simp
  have o: "dispatch_outcome (fst (processChunk example_tool example_format hi_chunk [] []))
       = [Inl (''a.md'', ''hi'', False), Inr (Text (result_status ''wrote a.md''))]"
    by code_simp
  have s: "snd (processChunk example_tool example_format hi_chunk [] [])
       = ([], [(''a.md'', ''hi'')])" by code_simp
  note inst = split_boundary[where callTool = example_tool and format = example_format
      and w = "[]" and body = hi_body and chunks = hi_fragments and chunk = hi_chunk,
      OF h1 h2 h3, unfolded o s]
  from h1 h2 h3 conjunct1[OF inst] o conjunct1[OF conjunct2[OF inst]]
  show ?thesis by (intro conjI)
qed

text \<open>
  C3. Take the text of one block, put a fence marker in front of it, with or without
  the \<^verbatim>\<open>xml\<close> tag and any white space, and white space and a fence marker behind it.
  \<open>findCompleteBlock\<close> returns the same block as for the block alone, and the end offset
  is the end of the trailing marker, whatever text follows: cutting the buffer there
  leaves exactly that text, a second fence marker included. With nothing behind the
  trailing marker the loop does on the fenced text what it does on the block alone.
\<close>

theorem fence_tolerance:
  assumes "closes_at_end body"
    and "l = [] \<or> l = ''xml''"
    and "\<forall>x\<in>set ws1. is_space x" and "\<forall>x\<in>set ws2. is_space x"
  shows "findCompleteBlock (fence @ l @ ws1 @ block_of body @ ws2 @ fence @ rest)
           = Some (block_of body, int (length (fence @ l @ ws1 @ block_of body @ ws2 @ fence)))
       \<and> findCompleteBlock (block_of body) = Some (block_of body, int (length (block_of body)))
       \<and> substring (fence @ l @ ws1 @ block_of body @ ws2 @ fence @ rest)
             (int (length (fence @ l @ ws1 @ block_of body @ ws2 @ fence))) = rest
       \<and> processLoop callTool format chunk (fence @ l @ ws1 @ block_of body @ ws2 @ fence) w
           = processLoop callTool format chunk (block_of body) w"
proof (intro conjI)
  let ?w = "fence @ l @ ws1 @ block_of body @ ws2 @ fence"
  show "findCompleteBlock (fence @ l @ ws1 @ block_of body @ ws2 @ fence @ rest)
           = Some (block_of body, int (length ?w))"
    by (rule findCompleteBlock_wrapped[OF assms])
  show b: "findCompleteBlock (block_of body) = Some (block_of body, int (length (block_of body)))"
    by (rule findCompleteBlock_block[OF assms(1)])
  have gen: "drop (length xs) (xs @ ys) = ys" for xs ys :: string by simp
  from gen[of ?w rest]
  show "substring (fence @ l @ ws1 @ block_of body @ ws2 @ fence @ rest) (int (length ?w)) = rest"
    by (simp only: substring_def nat_int append_assoc)
  from findCompleteBlock_wrapped[OF assms, of "[]"]
  have f: "findCompleteBlock ?w = Some (block_of body, int (length ?w))" by simp
  have "substring ?w (int (length ?w)) = substring (block_of body) (int (length (block_of body)))"
    by (simp only: substring_all)
  from processLoop_same_block[OF f b this]
  show "processLoop callTool format chunk ?w w
           = processLoop callTool format chunk (block_of body) w" .
qed

theorem fence_tolerance_witness:
  "closes_at_end fenced_body
   \<and> is_space (CHR 0x0A)
   \<and> findCompleteBlock (fence @ ''xml'' @ [CHR 0x0A] @ block_of fenced_body @ [CHR 0x0A] @ fence
         @ [CHR 0x0A] @ fence)
       = Some (block_of fenced_body, 75)
   \<and> findCompleteBlock (block_of fenced_body) = Some (block_of fenced_body, 64)
   \<and> substring (fence @ ''xml'' @ [CHR 0x0A] @ block_of fenced_body @ [CHR 0x0A] @ fence
         @ [CHR 0x0A] @ fence) 75 = [CHR 0x0A] @ fence
   \<and> processLoop example_tool example_format no_chunk
         (fence @ ''xml'' @ [CHR 0x0A] @ block_of fenced_body @ [CHR 0x0A] @ fence) []
       = processLoop example_tool example_format no_chunk (block_of fenced_body) []
   \<and> fst (processLoop example_tool example_format no_chunk (block_of fenced_body) [])
       = [CallTool ''b.md'' ''x'' False,
          YieldStatus (no_chunk\<lparr>content := Text (result_status ''wrote b.md'')\<rparr>)]"
proof -
  have h1: "closes_at_end fenced_body" by code_simp
  have h2: "''xml'' = [] \<or> ''xml'' = ''xml''" by simp
  have h3: "\<forall>x\<in>set [CHR 0x0A]. is_space x" by (simp add: is_space_def)
  have n1: "int (length (fence @ ''xml'' @ [CHR 0x0A] @ block_of fenced_body @ [CHR 0x0A] @ fence)) = 75"
    by code_simp
  have n2: "int (length (block_of fenced_body)) = 64" by code_simp
  have ev: "fst (processLoop example_tool example_format no_chunk (block_of fenced_body) [])
       = [CallTool ''b.md'' ''x'' False,
          YieldStatus (no_chunk\<lparr>content := Text (result_status ''wrote b.md'')\<rparr>)]"
    by code_simp
  note inst = fence_tolerance[where callTool = example_tool and format = example_format
      and chunk = no_chunk and w = "[]" and body = fenced_body and l = "''xml''"
      and ?ws1.0 = "[CHR 0x0A]" and ?ws2.0 = "[CHR 0x0A]" and rest = "[CHR 0x0A] @ fence",
      OF h1 h2 h3 h3, unfolded n1 n2]
  have sp: "is_space (CHR 0x0A)" by (simp add: is_space_def)
  from h1 sp inst ev show ?thesis by (intro conjI) (elim conjE, assumption)+
qed

text \<open>
  C4. The code at the failing input: a closing tag stands in the text before a block.
  \<open>findCompleteBlock\<close> returns the block, which starts at index 14, with the end offset
  14, the end of the first closing tag of the buffer (line 47). The buffer is cut there,
  the block is still in it, and it is found and dispatched a second time: two calls of
  the tool, two files written, for one block.
\<close>

theorem stray_close_tag_double_dispatch:
  "findCompleteBlock stray_buffer
     = Some (''<writeToFile><path>a</path><content>x</content></writeToFile>'', 14)
   \<and> substring stray_buffer 14 = ''<writeToFile><path>a</path><content>x</content></writeToFile>''
   \<and> processChunk example_tool example_format \<lparr>content = Text stray_buffer\<rparr> [] []
       = ([Yield \<lparr>content = Text stray_buffer\<rparr>,
           CallTool ''a'' ''x'' False,
           YieldStatus \<lparr>content = Text (result_status ''wrote a'')\<rparr>,
           CallTool ''a'' ''x'' False,
           YieldStatus \<lparr>content = Text (result_status ''wrote a'')\<rparr>],
          [], [(''a'', ''x''), (''a'', ''x'')])"
  by code_simp

text \<open>
  C5. Let the buffer, with the text of the chunk appended, hold one complete block without
  a recognisable path field, where the block starts at the first opening tag and no
  fence marker occurs up to its end; closing tags may stand before it. Then the block is
  what \<open>findCompleteBlock\<close> returns, the loop emits nothing for it and raises nothing,
  and it goes on exactly as on the text behind the block (after one trailing fence, if
  there is one): the call yields the chunk and then what that text gives, and when that
  text holds no complete block the call yields the chunk alone and the buffer is that
  text. That text is an end piece of the text behind the block, and all of it when no
  fence marker occurs there. In any buffer at all, a block without a path emits no event in its iteration,
  and no complete block is left when the loop ends.
\<close>

theorem missing_path_discard:
  assumes "closes_at_end body"
    and "filePath (block_of body) = None"
    and "index_of open_tag (pre @ block_of body) = Some (length pre)"
    and "index_of fence (pre @ block_of body) = None"
    and "buffer @ chunkContent chunk = pre @ block_of body @ rest"
  shows "(\<exists>endIdx. findCompleteBlock (pre @ block_of body @ rest) = Some (block_of body, endIdx))
       \<and> processLoop callTool format chunk (pre @ block_of body @ rest) w
           = processLoop callTool format chunk (after_fence rest) w
       \<and> processChunk callTool format chunk buffer w
           = (Yield chunk # fst (processLoop callTool format chunk (after_fence rest) w),
              snd (processLoop callTool format chunk (after_fence rest) w))
       \<and> (findCompleteBlock (after_fence rest) = None \<longrightarrow>
            processChunk callTool format chunk buffer w = ([Yield chunk], after_fence rest, w))
       \<and> suffix (after_fence rest) rest
       \<and> (index_of fence rest = None \<longrightarrow> after_fence rest = rest)
       \<and> (\<forall>buf blk e. findCompleteBlock buf = Some (blk, e) \<and> filePath blk = None \<longrightarrow>
            processLoop callTool format chunk buf w
              = processLoop callTool format chunk (substring buf e) w
            \<and> length (substring buf e) < length buf)
       \<and> (\<forall>buf. findCompleteBlock (fst (snd (processLoop callTool format chunk buf w))) = None)"
proof -
  let ?buf = "pre @ block_of body @ rest"
  from findCompleteBlock_first_block[OF assms(1,3,4), of rest]
  have 1: "\<exists>endIdx. findCompleteBlock ?buf = Some (block_of body, endIdx)" by blast
  have 2: "processLoop callTool format chunk ?buf w
           = processLoop callTool format chunk (after_fence rest) w"
    by (rule processLoop_pathless_first_block[OF assms(1-4)])
  have "(if chunkContent chunk \<noteq> [] then buffer @ chunkContent chunk else buffer)
      = buffer @ chunkContent chunk" by simp
  then have "(if chunkContent chunk \<noteq> [] then buffer @ chunkContent chunk else buffer) = ?buf"
    by (simp only: assms(5))
  then have 3: "processChunk callTool format chunk buffer w
           = (Yield chunk # fst (processLoop callTool format chunk (after_fence rest) w),
              snd (processLoop callTool format chunk (after_fence rest) w))"
    unfolding processChunk_def Let_def by (simp add: 2 split: prod.split)
  have 4: "findCompleteBlock (after_fence rest) = None \<longrightarrow>
            processChunk callTool format chunk buffer w = ([Yield chunk], after_fence rest, w)"
    using 3 by (simp add: processLoop_None)
  have 5: "\<forall>buf blk e. findCompleteBlock buf = Some (blk, e) \<and> filePath blk = None \<longrightarrow>
            processLoop callTool format chunk buf w
              = processLoop callTool format chunk (substring buf e) w
            \<and> length (substring buf e) < length buf"
  proof (intro allI impI)
    fix buf blk e
    assume a: "findCompleteBlock buf = Some (blk, e) \<and> filePath blk = None"
    note f = conjunct1[OF a] and p = conjunct2[OF a]
    from processLoop_skip[OF f disjI1[OF p], of callTool format chunk w]
      findCompleteBlock_shorter[OF f]
    show "processLoop callTool format chunk buf w
              = processLoop callTool format chunk (substring buf e) w
            \<and> length (substring buf e) < length buf" by (rule conjI)
  qed
  have 6: "\<forall>buf. findCompleteBlock (fst (snd (processLoop callTool format chunk buf w))) = None"
    by (simp add: processLoop_final)
  have 7: "suffix (after_fence rest) rest" by (rule after_fence_suffix)
  have 8: "index_of fence rest = None \<longrightarrow> after_fence rest = rest"
    by (simp add: after_fence_id)
  from 1 2 3 4 7 8 5 6 show ?thesis by (intro conjI)
qed

theorem missing_path_discard_witness:
  "closes_at_end pathless_body
   \<and> filePath (block_of pathless_body) = None
   \<and> index_of open_tag (''note: '' @ block_of pathless_body) = Some (length ''note: '')
   \<and> index_of fence (''note: '' @ block_of pathless_body) = None
   \<and> ''note: '' @ chunkContent \<lparr>content = Text (block_of pathless_body @ ''tail'')\<rparr>
       = ''note: '' @ block_of pathless_body @ ''tail''
   \<and> processChunk example_tool example_format
         \<lparr>content = Text (block_of pathless_body @ ''tail'')\<rparr> ''note: '' []
       = ([Yield \<lparr>content = Text (block_of pathless_body @ ''tail'')\<rparr>], ''tail'', [])
   \<and> index_of open_tag (close_tag @ block_of pathless_body) = Some (length close_tag)
   \<and> index_of fence (close_tag @ block_of pathless_body) = None
   \<and> [] @ chunkContent \<lparr>content = Text (close_tag @ block_of pathless_body @ block_of hi_body)\<rparr>
       = close_tag @ block_of pathless_body @ block_of hi_body
   \<and> processChunk example_tool example_format
         \<lparr>content = Text (close_tag @ block_of pathless_body @ block_of hi_body)\<rparr> [] []
       = ([Yield \<lparr>content = Text (close_tag @ block_of pathless_body @ block_of hi_body)\<rparr>,
           CallTool ''a.md'' ''hi'' False,
           YieldStatus \<lparr>content = Text (result_status ''wrote a.md'')\<rparr>],
          [], [(''a.md'', ''hi'')])"
proof -
  let ?c1 = "\<lparr>content = Text (block_of pathless_body @ ''tail'')\<rparr>"
  let ?c2 = "\<lparr>content = Text (close_tag @ block_of pathless_body @ block_of hi_body)\<rparr>"
  have h1: "closes_at_end pathless_body" by code_simp
  have h2: "filePath (block_of pathless_body) = None" by code_simp
  have h3: "index_of open_tag (''note: '' @ block_of pathless_body) = Some (length ''note: '')"
    by code_simp
  have h4: "index_of fence (''note: '' @ block_of pathless_body) = None" by code_simp
  have h5: "''note: '' @ chunkContent ?c1 = ''note: '' @ block_of pathless_body @ ''tail''"
    by code_simp
  have a1: "after_fence ''tail'' = ''tail''" by code_simp
  have n1: "findCompleteBlock ''tail'' = None" by code_simp
  note i1 = missing_path_discard[where callTool = example_tool and format = example_format
      and chunk = ?c1 and w = "[]" and buffer = "''note: ''" and pre = "''note: ''"
      and body = pathless_body and rest = "''tail''", OF h1 h2 h3 h4 h5, unfolded a1]
  from conjunct1[OF conjunct2[OF conjunct2[OF conjunct2[OF i1]]]] n1
  have e1: "processChunk example_tool example_format ?c1 ''note: '' [] = ([Yield ?c1], ''tail'', [])"
    by (rule mp)
  have g3: "index_of open_tag (close_tag @ block_of pathless_body) = Some (length close_tag)"
    by code_simp
  have g4: "index_of fence (close_tag @ block_of pathless_body) = None" by code_simp
  have g5: "[] @ chunkContent ?c2 = close_tag @ block_of pathless_body @ block_of hi_body"
    by code_simp
  have a2: "after_fence (block_of hi_body) = block_of hi_body" by code_simp
  have l2: "processLoop example_tool example_format ?c2 (block_of hi_body) []
      = ([CallTool ''a.md'' ''hi'' False,
          YieldStatus \<lparr>content = Text (result_status ''wrote a.md'')\<rparr>],
         [], [(''a.md'', ''hi'')])" by code_simp
  note i2 = missing_path_discard[where callTool = example_tool and format = example_format
      and chunk = ?c2 and w = "[]" and buffer = "[]" and pre = close_tag
      and body = pathless_body and rest = "block_of hi_body", OF h1 h2 g3 g4 g5, unfolded a2 l2]
  from conjunct1[OF conjunct2[OF conjunct2[OF i2]]]
  have e2: "processChunk example_tool example_format ?c2 [] []
       = ([Yield ?c2, CallTool ''a.md'' ''hi'' False,
           YieldStatus \<lparr>content = Text (result_status ''wrote a.md'')\<rparr>],
          [], [(''a.md'', ''hi'')])" by simp
  from h1 h2 h3 h4 h5 e1 g3 g4 g5 e2 show ?thesis by (intro conjI)
qed

text \<open>
  C6. When the tool throws for a dispatched block, the loop does not fail: it emits the
  call, then a status chunk (the chunk with its content replaced) whose text is
  \<^verbatim>\<open>"\nError: " + (err?.message || err) + "\n"\<close>, and goes on with the rest of the
  buffer. That text contains \<^verbatim>\<open>"Error: "\<close> followed by the message of the thrown value
  (by its text when it has no message).
\<close>

theorem dispatch_error_caught:
  assumes "findCompleteBlock buffer = Some (block, endIdx)"
    and "filePath block = Some fp" and "fp \<noteq> []"
    and "callTool fp (case fileContent block of Some c \<Rightarrow> c | None \<Rightarrow> []) False w = (Inl err, w')"
  shows "\<exists>evs buffer' w''.
           processLoop callTool format chunk buffer w =
             (CallTool fp (case fileContent block of Some c \<Rightarrow> c | None \<Rightarrow> []) False
                # YieldStatus (chunk\<lparr>content := Text (error_status err)\<rparr>) # evs, buffer', w'')
         \<and> processLoop callTool format chunk (substring buffer endIdx) w' = (evs, buffer', w'')
         \<and> (case message err of
               Some msg \<Rightarrow> sublist (''Error: '' @ msg) (error_status err)
             | None \<Rightarrow> sublist (''Error: '' @ as_text err) (error_status err))"
proof -
  obtain evs buffer' w'' where
    r: "processLoop callTool format chunk (substring buffer endIdx) w' = (evs, buffer', w'')"
    by (cases "processLoop callTool format chunk (substring buffer endIdx) w'")
  show ?thesis
    using r error_status_contains[of err]
    by (simp add: processLoop_dispatch[OF assms(1-3)]
        dispatch_thrown[where callTool = callTool and fp = fp and w = w
          and fc = "fileContent block", OF assms(4)])
qed

theorem dispatch_error_caught_witness:
  "findCompleteBlock full_block = Some (full_block, 67)
   \<and> filePath full_block = Some ''full.md''
   \<and> example_tool ''full.md'' ''x'' False [] = (Inl disk_full, [])
   \<and> processLoop example_tool example_format no_chunk full_block []
       = ([CallTool ''full.md'' ''x'' False,
           YieldStatus (no_chunk\<lparr>content := Text (error_status disk_full)\<rparr>)], [], [])
   \<and> error_status disk_full = [CHR 0x0A] @ ''Error: disk full'' @ [CHR 0x0A]
   \<and> sublist (''Error: '' @ ''disk full'') (error_status disk_full)"
proof -
  have h1: "findCompleteBlock full_block = Some (full_block, 67)" by code_simp
  have h2: "filePath full_block = Some ''full.md''" by code_simp
  have h3: "''full.md'' \<noteq> []" by simp
  have fc: "fileContent full_block = Some ''x''" by code_simp
  have t: "example_tool ''full.md'' ''x'' False [] = (Inl disk_full, [])"
    by (simp add: example_tool_def disk_full_def)
  have h4: "example_tool ''full.md'' (case fileContent full_block of Some c \<Rightarrow> c | None \<Rightarrow> []) False []
      = (Inl disk_full, [])" unfolding fc using t by simp
  have rest: "processLoop example_tool example_format no_chunk (substring full_block 67) []
      = ([], [], [])" by code_simp
  have st: "error_status disk_full = [CHR 0x0A] @ ''Error: disk full'' @ [CHR 0x0A]"
    by (simp add: error_status_def error_text_def disk_full_def)
  have msg: "message disk_full = Some ''disk full''" by (simp add: disk_full_def)
  from dispatch_error_caught[where callTool = example_tool and format = example_format
      and chunk = no_chunk and w = "[]" and w' = "[]" and err = disk_full
      and fp = "''full.md''" and buffer = full_block and block = full_block and endIdx = 67,
      OF h1 h2 h3 h4]
  obtain evs buffer' w'' where ABC:
    "processLoop example_tool example_format no_chunk full_block [] =
             (CallTool ''full.md'' (case fileContent full_block of Some c \<Rightarrow> c | None \<Rightarrow> []) False
                # YieldStatus (no_chunk\<lparr>content := Text (error_status disk_full)\<rparr>) # evs, buffer', w'')
     \<and> processLoop example_tool example_format no_chunk (substring full_block 67) [] = (evs, buffer', w'')
     \<and> (case message disk_full of
               Some msg \<Rightarrow> sublist (''Error: '' @ msg) (error_status disk_full)
             | None \<Rightarrow> sublist (''Error: '' @ as_text disk_full) (error_status disk_full))"
    by (elim exE) (rule that)
  note A = conjunct1[OF ABC] and B = conjunct1[OF conjunct2[OF ABC]]
    and C = conjunct2[OF conjunct2[OF ABC]]
  from B rest have "evs = []" "buffer' = []" "w'' = []" by simp_all
  with A have A': "processLoop example_tool example_format no_chunk full_block []
       = ([CallTool ''full.md'' ''x'' False,
           YieldStatus (no_chunk\<lparr>content := Text (error_status disk_full)\<rparr>)], [], [])"
    unfolding fc by simp
  from C have C': "sublist (''Error: '' @ ''disk full'') (error_status disk_full)"
    unfolding msg by (simp only: option.case)
  from h1 h2 t A' st C' show ?thesis by (intro conjI)
qed

text \<open>
  C7. The code at the failing input: a closing tag stands in the text before a block that
  has a path and no content field. \<open>findCompleteBlock\<close> returns the block with the end
  offset 14, the end of the first closing tag of the buffer; the buffer cut there still
  holds the whole block, which is found again. The tool is called twice for the one
  block, each time with the empty string as content and \<^verbatim>\<open>confirmation: false\<close>.
\<close>

theorem stray_close_tag_contentless_twice:
  "findCompleteBlock stray_contentless = Some (contentless_block, 14)
   \<and> substring stray_contentless 14 = contentless_block
   \<and> filePath contentless_block = Some ''a.md''
   \<and> fileContent contentless_block = None
   \<and> processChunk example_tool example_format \<lparr>content = Text stray_contentless\<rparr> [] []
       = ([Yield \<lparr>content = Text stray_contentless\<rparr>,
           CallTool ''a.md'' [] False,
           YieldStatus \<lparr>content = Text (result_status ''wrote a.md'')\<rparr>,
           CallTool ''a.md'' [] False,
           YieldStatus \<lparr>content = Text (result_status ''wrote a.md'')\<rparr>],
          [], [(''a.md'', []), (''a.md'', [])])"
  by code_simp

text \<open>
  C8. The code does not fix the order of the fields: they are matched by two separate
  patterns, each searched in the whole block. A block with the content field before the
  path field is detected, both fields are extracted, and it is dispatched.
\<close>

theorem content_before_path_counterexample:
  "findCompleteBlock reversed_block = Some (reversed_block, 61)
   \<and> filePath reversed_block = Some ''a''
   \<and> fileContent reversed_block = Some ''x''
   \<and> fst (processChunk example_tool example_format \<lparr>content = Text reversed_block\<rparr> [] [])
       = [Yield \<lparr>content = Text reversed_block\<rparr>,
          CallTool ''a'' ''x'' False,
          YieldStatus \<lparr>content = Text (result_status ''wrote a'')\<rparr>]"
  by code_simp

text \<open>
  C8, amended. Each field is the trimmed text between the first occurrence of its opening
  tag in the block and the first occurrence of its closing tag after that, whatever the
  positions of the two fields relative to each other.
\<close>

theorem fields_any_order:
  assumes "index_of ''<path>'' block = Some i"
    and "index_of ''</path>'' (drop (i + 6) block) = Some n"
    and "index_of ''<content>'' block = Some j"
    and "index_of ''</content>'' (drop (j + 9) block) = Some k"
  shows "filePath block = Some (trim (take n (drop (i + 6) block)))
       \<and> fileContent block = Some (trim (take k (drop (j + 9) block)))"
  using assms by (simp add: filePath_two_pointer fileContent_two_pointer)

theorem fields_any_order_witness:
  "index_of ''<path>'' reversed_block = Some 33
   \<and> index_of ''</path>'' (drop (33 + 6) reversed_block) = Some 1
   \<and> index_of ''<content>'' reversed_block = Some 13
   \<and> index_of ''</content>'' (drop (13 + 9) reversed_block) = Some 1
   \<and> filePath reversed_block = Some ''a''
   \<and> fileContent reversed_block = Some ''x''"
proof -
  have h1: "index_of ''<path>'' reversed_block = Some 33" by code_simp
  have h2: "index_of ''</path>'' (drop (33 + 6) reversed_block) = Some 1" by code_simp
  have h3: "index_of ''<content>'' reversed_block = Some 13" by code_simp
  have h4: "index_of ''</content>'' (drop (13 + 9) reversed_block) = Some 1" by code_simp
  have t1: "trim (take 1 (drop (33 + 6) reversed_block)) = ''a''" by code_simp
  have t2: "trim (take 1 (drop (13 + 9) reversed_block)) = ''x''" by code_simp
  note inst = fields_any_order[where block = reversed_block and i = 33 and n = 1 and j = 13
      and k = 1, OF h1 h2 h3 h4, unfolded t1 t2]
  from h1 h2 h3 h4 inst show ?thesis by (intro conjI) (elim conjE, assumption)+
qed

text \<open>
  C9. Let the text received, the buffer at the start and then the chunks, end with an
  opening tag and text after it in which no closing tag occurs. Whatever was dispatched
  for the text before, that unterminated span is still at the end of the buffer when the
  stream ends. And when no closing tag occurs before it either, the stream dispatches
  nothing at all: its events are the chunks passed through, and the buffer holds the
  whole text.
\<close>

theorem unterminated_block_stays:
  assumes "prefix open_tag u"
    and "index_of close_tag u = None"
    and "buffer @ concat (map chunkContent chunks) = a @ u"
  shows "suffix u (fst (snd (processStream callTool format chunks buffer w)))
       \<and> (index_of close_tag a = None \<longrightarrow>
            processStream callTool format chunks buffer w = (map Yield chunks, a @ u, w))"
proof
  from assms(1) have u: "u \<noteq> []" "hd u = CHR ''<''"
    by (auto simp: prefix_def open_tag_def)
  from processStream_keeps_tail[OF u assms(2,3)]
  show "suffix u (fst (snd (processStream callTool format chunks buffer w)))" .
  show "index_of close_tag a = None \<longrightarrow>
            processStream callTool format chunks buffer w = (map Yield chunks, a @ u, w)"
  proof
    assume na: "index_of close_tag a = None"
    have "index_of close_tag (a @ u) = None"
    proof (cases "index_of close_tag (a @ u)")
      case None
      then show ?thesis .
    next
      case (Some n)
      from close_tag_no_straddle[OF disjI2[OF u(2)] assms(2) Some]
      have b: "n + length close_tag \<le> length a" .
      from Some have "prefix close_tag (drop n (a @ u))" by (simp add: index_of_Some_iff)
      with b have "prefix close_tag (drop n a @ u)" by simp
      moreover from b have "length close_tag \<le> length (drop n a)" by simp
      ultimately have "prefix close_tag (drop n a)"
        by (metis prefix_length_prefix prefixI prefix_order.refl prefix_append append_prefixD)
      with na b show ?thesis by (simp add: index_of_None_iff)
    qed
    then have "index_of close_tag (buffer @ concat (map chunkContent chunks)) = None"
      by (simp only: assms(3))
    from processStream_no_close[OF this] show
      "processStream callTool format chunks buffer w = (map Yield chunks, a @ u, w)"
      by (simp only: assms(3))
  qed
qed

theorem unterminated_block_stays_witness:
  "prefix open_tag unfinished_tail
   \<and> index_of close_tag unfinished_tail = None
   \<and> [] @ concat (map chunkContent closed_then_open) = (block_of hi_body @ '' then '') @ unfinished_tail
   \<and> suffix unfinished_tail (fst (snd (processStream example_tool example_format closed_then_open [] [])))
   \<and> processStream example_tool example_format closed_then_open [] []
       = ([Yield \<lparr>content = Text (block_of hi_body @ '' then <write'')\<rparr>,
           CallTool ''a.md'' ''hi'' False,
           YieldStatus \<lparr>content = Text (result_status ''wrote a.md'')\<rparr>,
           Yield \<lparr>content = Text ''ToFile><path>b.md</path><content>never closed''\<rparr>],
          '' then '' @ unfinished_tail, [(''a.md'', ''hi'')])
   \<and> [] @ concat (map chunkContent only_open) = ''intro '' @ unfinished_tail
   \<and> index_of close_tag ''intro '' = None
   \<and> processStream example_tool example_format only_open [] []
       = (map Yield only_open, ''intro '' @ unfinished_tail, [])"
proof -
  have h1: "prefix open_tag unfinished_tail" by code_simp
  have h2: "index_of close_tag unfinished_tail = None" by code_simp
  have h3: "[] @ concat (map chunkContent closed_then_open)
      = (block_of hi_body @ '' then '') @ unfinished_tail" by code_simp
  have h4: "[] @ concat (map chunkContent only_open) = ''intro '' @ unfinished_tail"
    by code_simp
  have h5: "index_of close_tag ''intro '' = None" by code_simp
  have ev: "processStream example_tool example_format closed_then_open [] []
       = ([Yield \<lparr>content = Text (block_of hi_body @ '' then <write'')\<rparr>,
           CallTool ''a.md'' ''hi'' False,
           YieldStatus \<lparr>content = Text (result_status ''wrote a.md'')\<rparr>,
           Yield \<lparr>content = Text ''ToFile><path>b.md</path><content>never closed''\<rparr>],
          '' then '' @ unfinished_tail, [(''a.md'', ''hi'')])" by code_simp
  note i1 = unterminated_block_stays[where callTool = example_tool and format = example_format
      and w = "[]" and buffer = "[]" and chunks = closed_then_open
      and a = "block_of hi_body @ '' then ''" and u = unfinished_tail, OF h1 h2 h3]
  note i2 = unterminated_block_stays[where callTool = example_tool and format = example_format
      and w = "[]" and buffer = "[]" and chunks = only_open
      and a = "''intro ''" and u = unfinished_tail, OF h1 h2 h4]
  from conjunct2[OF i2] h5
  have e2: "processStream example_tool example_format only_open [] []
       = (map Yield only_open, ''intro '' @ unfinished_tail, [])" by (rule mp)
  from h1 h2 h3 conjunct1[OF i1] ev h4 h5 e2 show ?thesis by (intro conjI)
qed

text \<open>
  C10. For a block with a path field, let the raw path be the text between the first
  \<^verbatim>\<open><path>\<close> and the first \<^verbatim>\<open></path>\<close> after it. If the raw path is white space only,
  the block is discarded: the loop emits nothing for it and goes on. Otherwise the tool
  is called with the trimmed raw path and, as content, the trimmed text between the
  content tags (the empty string when there is no content field, or when the text is
  white space only). Trimming removes white space at both ends and nothing else.
\<close>

theorem dispatched_fields_trimmed:
  assumes "findCompleteBlock buffer = Some (block, endIdx)"
    and "index_of ''<path>'' block = Some i"
    and "index_of ''</path>'' (drop (i + 6) block) = Some n"
  shows "block = take i block @ ''<path>'' @ take n (drop (i + 6) block) @ ''</path>''
                   @ drop (i + 6 + n + 7) block
       \<and> (if \<forall>x\<in>set (take n (drop (i + 6) block)). is_space x
          then processLoop callTool format chunk buffer w
                 = processLoop callTool format chunk (substring buffer endIdx) w
          else \<exists>st evs buffer' w'.
                 processLoop callTool format chunk buffer w =
                   (CallTool (trim (take n (drop (i + 6) block)))
                      (case index_of ''<content>'' block of
                         None \<Rightarrow> []
                       | Some j \<Rightarrow>
                           (case index_of ''</content>'' (drop (j + 9) block) of
                              None \<Rightarrow> []
                            | Some k \<Rightarrow> trim (take k (drop (j + 9) block))))
                      False
                    # YieldStatus (chunk\<lparr>content := Text st\<rparr>) # evs, buffer', w'))
       \<and> (\<forall>s. (\<forall>x\<in>set s. is_space x) \<longrightarrow> trim s = [])
       \<and> (\<forall>s. \<exists>a b. s = a @ trim s @ b \<and> (\<forall>x\<in>set a. is_space x) \<and> (\<forall>x\<in>set b. is_space x)
              \<and> (trim s = [] \<or> (\<not> is_space (hd (trim s)) \<and> \<not> is_space (last (trim s)))))"
proof (intro conjI)
  let ?raw = "take n (drop (i + 6) block)"
  have fp: "filePath block = Some (trim ?raw)"
    using assms(2,3) by (simp add: filePath_two_pointer)
  have fc: "(case fileContent block of Some c \<Rightarrow> c | None \<Rightarrow> []) =
      (case index_of ''<content>'' block of
         None \<Rightarrow> []
       | Some j \<Rightarrow>
           (case index_of ''</content>'' (drop (j + 9) block) of
              None \<Rightarrow> []
            | Some k \<Rightarrow> trim (take k (drop (j + 9) block))))"
    by (simp add: fileContent_two_pointer split: option.split)
  have L1: "length ''<path>'' = 6" and L2: "length ''</path>'' = 7" by simp_all
  have b1: "block = take i block @ ''<path>'' @ drop (i + 6) block"
    using index_of_split[OF assms(2)] unfolding L1 .
  have "drop (i + 6) block = ?raw @ ''</path>'' @ drop (n + 7) (drop (i + 6) block)"
    using index_of_split[OF assms(3)] unfolding L2 .
  moreover have "drop (n + 7) (drop (i + 6) block) = drop (i + 6 + n + 7) block"
    by (simp only: drop_drop ac_simps)
  ultimately have b2: "drop (i + 6) block = ?raw @ ''</path>'' @ drop (i + 6 + n + 7) block"
    by (simp only:)
  from b1 b2 show "block = take i block @ ''<path>'' @ ?raw @ ''</path>'' @ drop (i + 6 + n + 7) block"
    by metis
  show "if \<forall>x\<in>set ?raw. is_space x
          then processLoop callTool format chunk buffer w
                 = processLoop callTool format chunk (substring buffer endIdx) w
          else \<exists>st evs buffer' w'.
                 processLoop callTool format chunk buffer w =
                   (CallTool (trim ?raw)
                      (case index_of ''<content>'' block of
                         None \<Rightarrow> []
                       | Some j \<Rightarrow>
                           (case index_of ''</content>'' (drop (j + 9) block) of
                              None \<Rightarrow> []
                            | Some k \<Rightarrow> trim (take k (drop (j + 9) block))))
                      False
                    # YieldStatus (chunk\<lparr>content := Text st\<rparr>) # evs, buffer', w')"
  proof (cases "\<forall>x\<in>set ?raw. is_space x")
    case True
    then have "trim ?raw = []" by (simp only: trim_Nil_iff)
    with fp have "filePath block = None \<or> filePath block = Some []" by simp
    from processLoop_skip[OF assms(1) this] True show ?thesis by simp
  next
    case False
    then have ne: "trim ?raw \<noteq> []" by (simp only: trim_Nil_iff not_False_eq_True)
    obtain evs buffer' w' where
      r: "processLoop callTool format chunk (substring buffer endIdx)
            (snd (callTool (trim ?raw) (case fileContent block of Some c \<Rightarrow> c | None \<Rightarrow> []) False w))
          = (evs, buffer', w')"
      by (cases "processLoop callTool format chunk (substring buffer endIdx)
            (snd (callTool (trim ?raw) (case fileContent block of Some c \<Rightarrow> c | None \<Rightarrow> []) False w))")
    from dispatch_shape[of callTool format chunk "trim ?raw" "fileContent block" w]
    obtain st where d: "dispatch callTool format chunk (trim ?raw) (fileContent block) w =
       ([CallTool (trim ?raw) (case fileContent block of Some c \<Rightarrow> c | None \<Rightarrow> []) False,
         YieldStatus (chunk\<lparr>content := Text st\<rparr>)],
        snd (callTool (trim ?raw) (case fileContent block of Some c \<Rightarrow> c | None \<Rightarrow> []) False w))"
      by blast
    have "processLoop callTool format chunk buffer w =
        (CallTool (trim ?raw) (case fileContent block of Some c \<Rightarrow> c | None \<Rightarrow> []) False
           # YieldStatus (chunk\<lparr>content := Text st\<rparr>) # evs, buffer', w')"
      by (simp add: processLoop_dispatch[OF assms(1) fp ne] d r)
    then show ?thesis using False unfolding fc by auto
  qed
  show "\<forall>s. (\<forall>x\<in>set s. is_space x) \<longrightarrow> trim s = []" by (simp add: trim_Nil_iff)
  show "\<forall>s. \<exists>a b. s = a @ trim s @ b \<and> (\<forall>x\<in>set a. is_space x) \<and> (\<forall>x\<in>set b. is_space x)
              \<and> (trim s = [] \<or> (\<not> is_space (hd (trim s)) \<and> \<not> is_space (last (trim s))))"
    using trim_decomp by blast
qed

theorem dispatched_fields_trimmed_witness:
  "findCompleteBlock padded_block = Some (padded_block, 67)
   \<and> index_of ''<path>'' padded_block = Some 13
   \<and> index_of ''</path>'' (drop (13 + 6) padded_block) = Some 6
   \<and> (\<exists>st evs buffer' w'.
         processLoop example_tool example_format no_chunk padded_block [] =
           (CallTool ''a.md'' [] False # YieldStatus (no_chunk\<lparr>content := Text st\<rparr>) # evs,
            buffer', w'))
   \<and> findCompleteBlock blank_path_block = Some (blank_path_block, 62)
   \<and> index_of ''<path>'' blank_path_block = Some 13
   \<and> index_of ''</path>'' (drop (13 + 6) blank_path_block) = Some 2
   \<and> processLoop example_tool example_format no_chunk blank_path_block []
       = processLoop example_tool example_format no_chunk [] []"
proof -
  have p1: "findCompleteBlock padded_block = Some (padded_block, 67)" by code_simp
  have p2: "index_of ''<path>'' padded_block = Some 13" by code_simp
  have p3: "index_of ''</path>'' (drop (13 + 6) padded_block) = Some 6" by code_simp
  have pc: "(\<forall>x\<in>set (take 6 (drop (13 + 6) padded_block)). is_space x) = False" by code_simp
  have pt: "trim (take 6 (drop (13 + 6) padded_block)) = ''a.md''" by code_simp
  have pk: "(case index_of ''<content>'' padded_block of
               None \<Rightarrow> []
             | Some j \<Rightarrow>
                 (case index_of ''</content>'' (drop (j + 9) padded_block) of
                    None \<Rightarrow> []
                  | Some k \<Rightarrow> trim (take k (drop (j + 9) padded_block)))) = []" by code_simp
  note i1 = dispatched_fields_trimmed[where callTool = example_tool and format = example_format
      and chunk = no_chunk and w = "[]" and buffer = padded_block and block = padded_block
      and endIdx = 67 and i = 13 and n = 6, OF p1 p2 p3]
  note a1 = conjunct1[OF conjunct2[OF i1], unfolded pc if_False pt pk]
  have b1: "findCompleteBlock blank_path_block = Some (blank_path_block, 62)" by code_simp
  have b2: "index_of ''<path>'' blank_path_block = Some 13" by code_simp
  have b3: "index_of ''</path>'' (drop (13 + 6) blank_path_block) = Some 2" by code_simp
  have bc: "(\<forall>x\<in>set (take 2 (drop (13 + 6) blank_path_block)). is_space x) = True" by code_simp
  have bs: "substring blank_path_block 62 = []" by code_simp
  note i2 = dispatched_fields_trimmed[where callTool = example_tool and format = example_format
      and chunk = no_chunk and w = "[]" and buffer = blank_path_block and block = blank_path_block
      and endIdx = 62 and i = 13 and n = 2, OF b1 b2 b3]
  note a2 = conjunct1[OF conjunct2[OF i2], unfolded bc if_True bs]
  from p1 p2 p3 a1 b1 b2 b3 a2 show ?thesis by (intro conjI)
qed

end
